theory Spec2Isabelle
  imports Complex_Main "HOL-Library.Multiset"
begin

section \<open>Python values used by the migration pipeline\<close>

text \<open>
  Strings are lists of 8-bit characters; the case conversions, the whitespace class and
  the word class are those of Python on the ASCII repertoire, which is what the DDL text
  handled by the pipeline is written in.
\<close>

datatype py_error = KeyError string | ZeroDivisionError | PyException string

definition is_space :: "char \<Rightarrow> bool" where
  "is_space c = (c \<in> set [CHR '' '', CHR 0x09, CHR 0x0A, CHR 0x0B, CHR 0x0C, CHR 0x0D,
                          CHR 0x1C, CHR 0x1D, CHR 0x1E, CHR 0x1F])"

definition is_upper :: "char \<Rightarrow> bool" where
  "is_upper c = (65 \<le> (of_char c :: nat) \<and> (of_char c :: nat) \<le> 90)"

definition is_lower :: "char \<Rightarrow> bool" where
  "is_lower c = (97 \<le> (of_char c :: nat) \<and> (of_char c :: nat) \<le> 122)"

definition is_digit :: "char \<Rightarrow> bool" where
  "is_digit c = (48 \<le> (of_char c :: nat) \<and> (of_char c :: nat) \<le> 57)"

text \<open>The class \<open>\w\<close> of the \<open>re\<close> module.\<close>

definition is_word :: "char \<Rightarrow> bool" where
  "is_word c = (is_upper c \<or> is_lower c \<or> is_digit c \<or> c = CHR ''_'')"

definition lower_char :: "char \<Rightarrow> char" where
  "lower_char c = (if is_upper c then char_of ((of_char c :: nat) + 32) else c)"

definition upper_char :: "char \<Rightarrow> char" where
  "upper_char c = (if is_lower c then char_of ((of_char c :: nat) - 32) else c)"

definition py_lower :: "string \<Rightarrow> string" where
  "py_lower s = map lower_char s"

definition py_upper :: "string \<Rightarrow> string" where
  "py_upper s = map upper_char s"

definition py_lstrip :: "string \<Rightarrow> string" where
  "py_lstrip s = dropWhile is_space s"

definition py_rstrip :: "string \<Rightarrow> string" where
  "py_rstrip s = rev (dropWhile is_space (rev s))"

definition py_strip :: "string \<Rightarrow> string" where
  "py_strip s = py_rstrip (py_lstrip s)"

text \<open>\<open>s.rstrip(';')\<close>: every trailing semicolon is removed.\<close>

definition py_rstrip_semi :: "string \<Rightarrow> string" where
  "py_rstrip_semi s = rev (dropWhile (\<lambda>c. c = CHR '';'') (rev s))"

definition py_startswith :: "string \<Rightarrow> string \<Rightarrow> bool" where
  "py_startswith s p = (take (length p) s = p)"

definition py_endswith :: "string \<Rightarrow> string \<Rightarrow> bool" where
  "py_endswith s p = (length p \<le> length s \<and> drop (length s - length p) s = p)"

text \<open>\<open>sub in s\<close> on strings.\<close>

fun py_in :: "string \<Rightarrow> string \<Rightarrow> bool" where
  "py_in sub [] = (sub = [])"
| "py_in sub (c # cs) = (py_startswith (c # cs) sub \<or> py_in sub cs)"

text \<open>\<open>s.count(c)\<close> for a one-character \<open>c\<close>.\<close>

definition py_count :: "string \<Rightarrow> char \<Rightarrow> int" where
  "py_count s c = int (length (filter (\<lambda>x. x = c) s))"

text \<open>\<open>s.split(c)\<close> for a one-character separator \<open>c\<close>.\<close>

fun py_split :: "string \<Rightarrow> char \<Rightarrow> string list" where
  "py_split [] c = [[]]"
| "py_split (x # xs) c =
     (if x = c then [] # py_split xs c
      else (case py_split xs c of [] \<Rightarrow> [[x]] | p # ps \<Rightarrow> (x # p) # ps))"

text \<open>\<open>s.isspace()\<close>: non-empty and only whitespace.\<close>

definition py_isspace :: "string \<Rightarrow> bool" where
  "py_isspace s = (s \<noteq> [] \<and> (\<forall>c \<in> set s. is_space c))"

subsection \<open>Dictionaries in insertion order\<close>

text \<open>
  A Python \<open>dict\<close> iterates over its keys in the order of their first insertion, and
  assigning to a key that is present replaces the value in place.
\<close>

type_synonym ('k, 'v) dict = "('k \<times> 'v) list"

definition dict_keys :: "('k, 'v) dict \<Rightarrow> 'k list" where
  "dict_keys d = map fst d"

definition dict_contains :: "('k, 'v) dict \<Rightarrow> 'k \<Rightarrow> bool" where
  "dict_contains d k = (k \<in> set (dict_keys d))"

fun dict_set :: "('k, 'v) dict \<Rightarrow> 'k \<Rightarrow> 'v \<Rightarrow> ('k, 'v) dict" where
  "dict_set [] k v = [(k, v)]"
| "dict_set ((k', v') # d) k v =
     (if k' = k then (k', v) # d else (k', v') # dict_set d k v)"

text \<open>\<open>d.get(k, dflt)\<close>.\<close>

definition dict_get :: "('k, 'v) dict \<Rightarrow> 'k \<Rightarrow> 'v \<Rightarrow> 'v" where
  "dict_get d k dflt = (case map_of d k of None \<Rightarrow> dflt | Some v \<Rightarrow> v)"

subsection \<open>The patterns of the \<open>re\<close> module that the pipeline uses\<close>

text \<open>
  A pattern is a sequence of atoms; every pattern of the pipeline has exactly one group,
  \<open>(\w+)\<close>. The matcher is the backtracking matcher of \<open>re\<close>: a greedy atom tries
  the longest run first, the lazy \<open>.*?\<close> the shortest, an optional atom is tried
  before it is skipped, and the first alternative that lets the rest of the pattern match
  is the match.
\<close>

datatype rx =
    Lit string        \<comment> \<open>literal text\<close>
  | Spaces1           \<comment> \<open>\<open>\s+\<close>\<close>
  | WordGroup         \<comment> \<open>\<open>(\w+)\<close>\<close>
  | OptQuote          \<comment> \<open>\<open>["\']?\<close>\<close>
  | LazyAny           \<comment> \<open>\<open>.*?\<close>, where \<open>.\<close> is any character but a newline\<close>
  | Opt "rx list"     \<comment> \<open>\<open>(?:...)?\<close>\<close>

fun lit_prefix :: "bool \<Rightarrow> string \<Rightarrow> string \<Rightarrow> bool" where
  "lit_prefix ic [] s = True"
| "lit_prefix ic (c # cs) [] = False"
| "lit_prefix ic (c # cs) (d # ds) =
     ((if ic then lower_char c = lower_char d else c = d) \<and> lit_prefix ic cs ds)"

fun first_some :: "'a option list \<Rightarrow> 'a option" where
  "first_some [] = None"
| "first_some (None # xs) = first_some xs"
| "first_some (Some x # xs) = Some x"

fun rx_size :: "rx \<Rightarrow> nat" and rx_list_size :: "rx list \<Rightarrow> nat" where
  "rx_size (Opt g) = Suc (rx_list_size g)"
| "rx_size (Lit l) = 1"
| "rx_size Spaces1 = 1"
| "rx_size WordGroup = 1"
| "rx_size OptQuote = 1"
| "rx_size LazyAny = 1"
| "rx_list_size [] = 0"
| "rx_list_size (r # rs) = rx_size r + rx_list_size rs"

lemma rx_list_size_append: "rx_list_size (g @ rs) = rx_list_size g + rx_list_size rs"
  by (induction g) simp_all

text \<open>
  \<open>rx_match ic p s cap\<close> matches the pattern \<open>p\<close> at the start of \<open>s\<close>
  (\<open>ic\<close> is \<open>re.IGNORECASE\<close>); the result is the text of the group and the
  text after the match.
\<close>

function rx_match :: "bool \<Rightarrow> rx list \<Rightarrow> string \<Rightarrow> string \<Rightarrow> (string \<times> string) option" where
  "rx_match ic [] s cap = Some (cap, s)"
| "rx_match ic (Lit l # rs) s cap =
     (if lit_prefix ic l s then rx_match ic rs (drop (length l) s) cap else None)"
| "rx_match ic (Spaces1 # rs) s cap =
     first_some (map (\<lambda>k. rx_match ic rs (drop k s) cap)
                     (rev [1 ..< Suc (length (takeWhile is_space s))]))"
| "rx_match ic (WordGroup # rs) s cap =
     first_some (map (\<lambda>k. rx_match ic rs (drop k s) (take k s))
                     (rev [1 ..< Suc (length (takeWhile is_word s))]))"
| "rx_match ic (OptQuote # rs) s cap =
     (case s of
        [] \<Rightarrow> rx_match ic rs s cap
      | c # s' \<Rightarrow>
          if c = CHR 0x22 \<or> c = CHR 0x27
          then (case rx_match ic rs s' cap of
                  Some r \<Rightarrow> Some r
                | None \<Rightarrow> rx_match ic rs s cap)
          else rx_match ic rs s cap)"
| "rx_match ic (LazyAny # rs) s cap =
     (case rx_match ic rs s cap of
        Some r \<Rightarrow> Some r
      | None \<Rightarrow>
          (case s of
             [] \<Rightarrow> None
           | c # s' \<Rightarrow> if c = CHR 0x0A then None else rx_match ic (LazyAny # rs) s' cap))"
| "rx_match ic (Opt g # rs) s cap =
     (case rx_match ic (g @ rs) s cap of
        Some r \<Rightarrow> Some r
      | None \<Rightarrow> rx_match ic rs s cap)"
  by pat_completeness auto
termination
  by (relation "measures [\<lambda>(ic, p, s, cap). rx_list_size p, \<lambda>(ic, p, s, cap). length s]")
     (simp_all add: rx_list_size_append)

text \<open>\<open>re.search(p, s)\<close>, then \<open>.group(1)\<close>; \<open>None\<close> when nothing matches.\<close>

fun rx_search :: "bool \<Rightarrow> rx list \<Rightarrow> string \<Rightarrow> string option" where
  "rx_search ic p [] = map_option fst (rx_match ic p [] [])"
| "rx_search ic p (c # s) =
     (case rx_match ic p (c # s) [] of
        Some r \<Rightarrow> Some (fst r)
      | None \<Rightarrow> rx_search ic p s)"

text \<open>
  \<open>re.findall(p, s)\<close>: the groups of the non-overlapping matches from left to right.
  After an empty match the scan moves on by one character.
\<close>

function rx_findall :: "bool \<Rightarrow> rx list \<Rightarrow> string \<Rightarrow> string list" where
  "rx_findall ic p s =
     (case rx_match ic p s [] of
        Some r \<Rightarrow>
          fst r # (if length (snd r) < length s then rx_findall ic p (snd r)
                   else (case s of [] \<Rightarrow> [] | c # s' \<Rightarrow> rx_findall ic p s'))
      | None \<Rightarrow> (case s of [] \<Rightarrow> [] | c # s' \<Rightarrow> rx_findall ic p s'))"
  by pat_completeness auto
termination
  by (relation "measure (\<lambda>(ic, p, s). length s)") simp_all

declare rx_findall.simps [simp del]

section \<open>Dependency Sequencer: \<open>sort_tables_by_dependencies\<close>\<close>

text \<open>
  An element of the \<open>tables\<close> list of a translation result. A dict is modelled by
  the two keys the sequencer reads, \<open>"name"\<close> and \<open>"ddl"\<close> (\<open>None\<close>: the key
  is absent); anything that is not a dict is \<open>NonDict\<close>.
\<close>

record entry =
  name :: "string option"
  ddl :: "string option"

datatype item = Dict entry | NonDict

text \<open>\<open>re.findall(r'foreign key.*?references\s+(\w+)', ddl)\<close> on the lowered DDL.\<close>

definition fk_pattern :: "rx list" where
  "fk_pattern = [Lit ''foreign key'', LazyAny, Lit ''references'', Spaces1, WordGroup]"

definition table_fk_deps :: "string \<Rightarrow> string list" where
  "table_fk_deps d = rx_findall False fk_pattern (py_lower d)"

text \<open>The first loop: \<open>table_map\<close> and \<open>table_deps\<close>.\<close>

fun collect_tables ::
  "item list \<Rightarrow> (string, entry) dict \<times> (string, string list) dict \<Rightarrow>
   (string, entry) dict \<times> (string, string list) dict" where
  "collect_tables [] acc = acc"
| "collect_tables (NonDict # ts) acc = collect_tables ts acc"
| "collect_tables (Dict e # ts) (table_map, table_deps) =
     (case name e of
        None \<Rightarrow> collect_tables ts (table_map, table_deps)
      | Some table_name \<Rightarrow>
          (case ddl e of
             None \<Rightarrow> collect_tables ts (table_map, table_deps)
           | Some d \<Rightarrow>
               collect_tables ts
                 (dict_set table_map table_name e,
                  dict_set table_deps table_name (table_fk_deps d))))"

text \<open>The variables that the nested function \<open>visit\<close> mutates.\<close>

record dfs_state =
  sorted_tables :: "entry list"
  visited :: "string set"
  temp_visited :: "string set"

definition dfs_init :: dfs_state where
  "dfs_init = \<lparr>sorted_tables = [], visited = {}, temp_visited = {}\<rparr>"

text \<open>
  \<open>visit\<close>, with its loop over the dependencies as \<open>visit_deps\<close>.
  \<open>temp_visited.remove\<close> and \<open>table_map[table_name]\<close> raise \<open>KeyError\<close> when
  the name is absent.
\<close>

function visit ::
    "(string, entry) dict \<Rightarrow> (string, string list) dict \<Rightarrow> string \<Rightarrow> dfs_state \<Rightarrow>
     py_error + dfs_state"
  and visit_deps ::
    "(string, entry) dict \<Rightarrow> (string, string list) dict \<Rightarrow> string list \<Rightarrow> dfs_state \<Rightarrow>
     py_error + dfs_state"
where
  "visit table_map table_deps table_name s =
     (if table_name \<in> temp_visited s then Inr s
      else if table_name \<in> visited s then Inr s
      else
        (case visit_deps table_map table_deps (dict_get table_deps table_name [])
                (s\<lparr>temp_visited := insert table_name (temp_visited s)\<rparr>) of
           Inl e \<Rightarrow> Inl e
         | Inr s1 \<Rightarrow>
             if table_name \<notin> temp_visited s1 then Inl (KeyError table_name)
             else
               (case map_of table_map table_name of
                  None \<Rightarrow> Inl (KeyError table_name)
                | Some t \<Rightarrow>
                    Inr (s1\<lparr>temp_visited := temp_visited s1 - {table_name},
                            visited := insert table_name (visited s1),
                            sorted_tables := sorted_tables s1 @ [t]\<rparr>))))"
| "visit_deps table_map table_deps [] s = Inr s"
| "visit_deps table_map table_deps (dep # deps) s =
     (if dict_contains table_map dep
      then (case visit table_map table_deps dep s of
              Inl e \<Rightarrow> Inl e
            | Inr s' \<Rightarrow> visit_deps table_map table_deps deps s')
      else visit_deps table_map table_deps deps s)"
  by pat_completeness auto

text \<open>
  Termination of the nested recursion: a call of \<open>visit\<close> that returns leaves
  \<open>temp_visited\<close> as it found it, and every call that descends adds a key of
  \<open>table_map\<close> to it.
\<close>

lemma visit_temp_partial:
  "visit_visit_deps_dom (Inl (tm, td, n, s)) \<Longrightarrow> visit tm td n s = Inr s' \<Longrightarrow>
   temp_visited s' = temp_visited s"
  "visit_visit_deps_dom (Inr (tm, td, ds, s)) \<Longrightarrow> visit_deps tm td ds s = Inr s' \<Longrightarrow>
   temp_visited s' = temp_visited s"
proof (induct tm td n s and tm td ds s arbitrary: s' and s' rule: visit_visit_deps.pinduct)
  case (1 tm td n s)
  note eq = visit.psimps [OF "1.hyps"(1)]
  show ?case
  proof (cases "n \<in> temp_visited s \<or> n \<in> visited s")
    case True
    with "1.prems" eq show ?thesis by (simp split: if_splits)
  next
    case False
    let ?s1 = "s\<lparr>temp_visited := insert n (temp_visited s)\<rparr>"
    from False "1.prems" eq obtain s1 t where
      r: "visit_deps tm td (dict_get td n []) ?s1 = Inr s1" and
      s': "s' = s1\<lparr>temp_visited := temp_visited s1 - {n}, visited := insert n (visited s1),
                    sorted_tables := sorted_tables s1 @ [t]\<rparr>"
      by (auto split: sum.splits if_splits option.splits)
    from False have "temp_visited s1 = temp_visited ?s1"
      using "1.hyps"(2) [OF _ _ r] by simp
    with s' False show ?thesis by auto
  qed
next
  case (2 tm td s)
  then show ?case by (simp add: visit_deps.psimps)
next
  case (3 tm td d ds s)
  note eq = visit_deps.psimps(2) [OF "3.hyps"(1)]
  show ?case
  proof (cases "dict_contains tm d")
    case True
    with "3.prems" eq obtain s1 where
      r: "visit tm td d s = Inr s1" and r2: "visit_deps tm td ds s1 = Inr s'"
      by (simp split: sum.splits)
    from "3.hyps"(2) [OF True r] "3.hyps"(3) [OF True r r2] show ?thesis by simp
  next
    case False
    with "3.prems" eq have "visit_deps tm td ds s = Inr s'" by simp
    with "3.hyps"(4) [OF False] show ?thesis by simp
  qed
qed

definition visit_tag :: "(string, entry) dict \<Rightarrow> string \<Rightarrow> nat" where
  "visit_tag tm n = (if dict_contains tm n then 0 else 2)"

definition visit_measure :: "(string, entry) dict \<Rightarrow> dfs_state \<Rightarrow> nat" where
  "visit_measure tm s = card (set (dict_keys tm) - temp_visited s)"

lemma visit_measure_insert:
  "n \<notin> temp_visited s \<Longrightarrow> dict_contains tm n \<Longrightarrow>
   visit_measure tm (s\<lparr>temp_visited := insert n (temp_visited s)\<rparr>) < visit_measure tm s"
  unfolding visit_measure_def
  by (intro psubset_card_mono) (auto simp: dict_contains_def)

lemma visit_measure_insert_other:
  "\<not> dict_contains tm n \<Longrightarrow>
   visit_measure tm (s\<lparr>temp_visited := insert n (temp_visited s)\<rparr>) = visit_measure tm s"
  unfolding visit_measure_def dict_contains_def
  by (rule arg_cong [where f = card]) auto

termination visit
proof (relation "measures
    [\<lambda>x. case x of Inl (tm, td, n, s) \<Rightarrow> visit_measure tm s
               | Inr (tm, td, ds, s) \<Rightarrow> visit_measure tm s,
     \<lambda>x. case x of Inl (tm, td, n, s) \<Rightarrow> visit_tag tm n | Inr _ \<Rightarrow> 1,
     \<lambda>x. case x of Inl _ \<Rightarrow> 0 | Inr (tm, td, ds, s) \<Rightarrow> length ds]", goal_cases)
  case 1
  then show ?case by simp
next
  case (2 tm td n s)
  show ?case
  proof (cases "dict_contains tm n")
    case True
    with 2 show ?thesis by (simp add: visit_measure_insert)
  next
    case False
    then show ?thesis by (simp add: visit_measure_insert_other visit_tag_def)
  qed
next
  case (3 tm td dep deps s)
  then show ?case by (simp add: visit_tag_def)
next
  case (4 tm td dep deps s s')
  then show ?case using visit_temp_partial(1) by (simp add: visit_measure_def)
next
  case (5 tm td dep deps s)
  then show ?case by simp
qed

text \<open>The last loop: \<open>for table_name in table_map: if table_name not in visited: visit(table_name)\<close>.\<close>

fun visit_all ::
  "(string, entry) dict \<Rightarrow> (string, string list) dict \<Rightarrow> string list \<Rightarrow> dfs_state \<Rightarrow>
   py_error + dfs_state" where
  "visit_all table_map table_deps [] s = Inr s"
| "visit_all table_map table_deps (table_name # rest) s =
     (if table_name \<notin> visited s
      then (case visit table_map table_deps table_name s of
              Inl e \<Rightarrow> Inl e
            | Inr s' \<Rightarrow> visit_all table_map table_deps rest s')
      else visit_all table_map table_deps rest s)"

definition sort_tables_by_dependencies :: "item list \<Rightarrow> py_error + entry list" where
  "sort_tables_by_dependencies tables =
     (case collect_tables tables ([], []) of
        (table_map, table_deps) \<Rightarrow>
          (case visit_all table_map table_deps (dict_keys table_map) dfs_init of
             Inl e \<Rightarrow> Inl e
           | Inr s \<Rightarrow> Inr (sorted_tables s)))"

subsection \<open>What a visit establishes\<close>

text \<open>
  \<open>table_map\<close> as the first loop builds it: no key twice, and every record stored
  under its own name.
\<close>

definition wf_table_map :: "(string, entry) dict \<Rightarrow> bool" where
  "wf_table_map tm = (distinct (dict_keys tm) \<and> (\<forall>(k, e) \<in> set tm. name e = Some k))"

definition dfs_inv :: "(string, entry) dict \<Rightarrow> dfs_state \<Rightarrow> bool" where
  "dfs_inv tm s =
     (distinct (map name (sorted_tables s)) \<and>
      set (map name (sorted_tables s)) = Some ` visited s \<and>
      (\<forall>e \<in> set (sorted_tables s). \<exists>k. name e = Some k \<and> map_of tm k = Some e) \<and>
      visited s \<subseteq> set (dict_keys tm))"

definition visit_post :: "(string, entry) dict \<Rightarrow> dfs_state \<Rightarrow> dfs_state \<Rightarrow> bool" where
  "visit_post tm s s' =
     (dfs_inv tm s' \<and> temp_visited s' = temp_visited s \<and> visited s \<subseteq> visited s' \<and>
      visited s' \<inter> temp_visited s \<subseteq> visited s)"

lemma wf_table_map_lookup:
  "wf_table_map tm \<Longrightarrow> dict_contains tm n \<Longrightarrow> \<exists>t. map_of tm n = Some t \<and> name t = Some n"
proof -
  assume wf: "wf_table_map tm" and c: "dict_contains tm n"
  from c obtain t where t: "(n, t) \<in> set tm"
    by (auto simp: dict_contains_def dict_keys_def)
  with wf have "map_of tm n = Some t" by (simp add: wf_table_map_def dict_keys_def)
  moreover from wf t have "name t = Some n" by (auto simp: wf_table_map_def)
  ultimately show ?thesis by blast
qed

lemma dfs_inv_temp [simp]: "dfs_inv tm (s\<lparr>temp_visited := T\<rparr>) = dfs_inv tm s"
  by (simp add: dfs_inv_def)

lemma dfs_inv_emit:
  assumes inv: "dfs_inv tm s" and t: "map_of tm n = Some t" "name t = Some n"
    and n: "n \<notin> visited s"
  shows "dfs_inv tm (s\<lparr>temp_visited := T, visited := insert n (visited s),
                       sorted_tables := sorted_tables s @ [t]\<rparr>)"
proof -
  from t have "n \<in> set (dict_keys tm)"
    by (auto simp: dict_keys_def dest: map_of_SomeD intro: rev_image_eqI)
  with inv t n show ?thesis
    by (auto simp: dfs_inv_def)
qed

lemma visit_ok:
  "wf_table_map tm \<Longrightarrow> dfs_inv tm s \<Longrightarrow> dict_contains tm n \<Longrightarrow>
     \<exists>s'. visit tm td n s = Inr s' \<and> visit_post tm s s' \<and> (n \<notin> temp_visited s \<longrightarrow> n \<in> visited s')"
  "wf_table_map tm \<Longrightarrow> dfs_inv tm s \<Longrightarrow>
     \<exists>s'. visit_deps tm td ds s = Inr s' \<and> visit_post tm s s' \<and>
          (\<forall>d \<in> set ds. dict_contains tm d \<and> d \<notin> temp_visited s \<longrightarrow> d \<in> visited s')"
proof (induct tm td n s and tm td ds s rule: visit_visit_deps.induct)
  case (1 tm td n s)
  show ?case
  proof (cases "n \<in> temp_visited s \<or> n \<in> visited s")
    case True
    with "1.prems" show ?thesis by (auto simp: visit_post_def)
  next
    case False
    let ?s1 = "s\<lparr>temp_visited := insert n (temp_visited s)\<rparr>"
    from False "1.hyps" "1.prems" obtain s2 where
      r: "visit_deps tm td (dict_get td n []) ?s1 = Inr s2" and p: "visit_post tm ?s1 s2"
      by force
    from wf_table_map_lookup [OF "1.prems"(1,3)] obtain t where
      t: "map_of tm n = Some t" "name t = Some n" by blast
    from p have temp2: "temp_visited s2 = insert n (temp_visited s)"
      by (simp add: visit_post_def)
    from p False have nv: "n \<notin> visited s2" by (auto simp: visit_post_def)
    let ?s' = "s2\<lparr>temp_visited := temp_visited s2 - {n}, visited := insert n (visited s2),
                   sorted_tables := sorted_tables s2 @ [t]\<rparr>"
    from False r temp2 t have v: "visit tm td n s = Inr ?s'" by simp
    from p have "dfs_inv tm s2" by (simp add: visit_post_def)
    from dfs_inv_emit [OF this t nv] have "dfs_inv tm ?s'" .
    with p temp2 False have "visit_post tm s ?s'"
      by (auto simp: visit_post_def)
    with v show ?thesis by simp
  qed
next
  case (2 tm td s)
  then show ?case by (simp add: visit_post_def)
next
  case (3 tm td d ds s)
  show ?case
  proof (cases "dict_contains tm d")
    case True
    from "3.hyps"(1) [OF True "3.prems" True] obtain s1 where
      r1: "visit tm td d s = Inr s1" and p1: "visit_post tm s s1"
      and d1: "d \<notin> temp_visited s \<longrightarrow> d \<in> visited s1" by blast
    from p1 have "dfs_inv tm s1" by (simp add: visit_post_def)
    from "3.hyps"(2) [OF True r1 "3.prems"(1) this] obtain s' where
      r2: "visit_deps tm td ds s1 = Inr s'" and p2: "visit_post tm s1 s'"
      and d2: "\<forall>x \<in> set ds. dict_contains tm x \<and> x \<notin> temp_visited s1 \<longrightarrow> x \<in> visited s'" by blast
    from True r1 r2 have "visit_deps tm td (d # ds) s = Inr s'" by simp
    moreover from p1 p2 have "visit_post tm s s'" by (auto simp: visit_post_def)
    moreover from p1 p2 d1 d2 have
      "\<forall>x \<in> set (d # ds). dict_contains tm x \<and> x \<notin> temp_visited s \<longrightarrow> x \<in> visited s'"
      by (auto simp: visit_post_def)
    ultimately show ?thesis by blast
  next
    case False
    from "3.hyps"(3) [OF False "3.prems"] False show ?thesis by auto
  qed
qed

lemma dfs_inv_init: "dfs_inv tm dfs_init"
  by (simp add: dfs_inv_def dfs_init_def)

lemma visit_all_ok:
  "wf_table_map tm \<Longrightarrow> dfs_inv tm s \<Longrightarrow> temp_visited s = {} \<Longrightarrow> set ns \<subseteq> set (dict_keys tm) \<Longrightarrow>
   \<exists>s'. visit_all tm td ns s = Inr s' \<and> dfs_inv tm s' \<and> temp_visited s' = {} \<and>
        visited s \<union> set ns \<subseteq> visited s'"
proof (induction ns arbitrary: s)
  case Nil
  then show ?case by simp
next
  case (Cons n ns)
  show ?case
  proof (cases "n \<in> visited s")
    case True
    with Cons.IH [OF Cons.prems(1,2,3)] Cons.prems(4) show ?thesis by auto
  next
    case False
    from Cons.prems(4) have c: "dict_contains tm n" by (simp add: dict_contains_def)
    from visit_ok(1) [OF Cons.prems(1,2) c, of td] Cons.prems(3) obtain s1 where
      r: "visit tm td n s = Inr s1" and p: "visit_post tm s s1" and n: "n \<in> visited s1"
      by auto
    from p Cons.prems(3) have i1: "dfs_inv tm s1" and t1: "temp_visited s1 = {}"
      and m1: "visited s \<subseteq> visited s1"
      by (simp_all add: visit_post_def)
    from Cons.prems(4) have "set ns \<subseteq> set (dict_keys tm)" by simp
    from Cons.IH [OF Cons.prems(1) i1 t1 this] obtain s' where
      "visit_all tm td ns s1 = Inr s'" "dfs_inv tm s'" "temp_visited s' = {}"
      "visited s1 \<union> set ns \<subseteq> visited s'" by blast
    with False r n m1 show ?thesis by auto
  qed
qed

text \<open>The names and the records of \<open>table_map\<close> after the first loop.\<close>

fun valid_entries :: "item list \<Rightarrow> entry list" where
  "valid_entries [] = []"
| "valid_entries (NonDict # ts) = valid_entries ts"
| "valid_entries (Dict e # ts) =
     (if name e \<noteq> None \<and> ddl e \<noteq> None then e # valid_entries ts else valid_entries ts)"

lemma dict_keys_dict_set: "set (dict_keys (dict_set d k v)) = insert k (set (dict_keys d))"
  by (induction d k v rule: dict_set.induct) (auto simp: dict_keys_def)

lemma distinct_dict_set: "distinct (dict_keys d) \<Longrightarrow> distinct (dict_keys (dict_set d k v))"
proof (induction d k v rule: dict_set.induct)
  case (1 k v)
  then show ?case by (simp add: dict_keys_def)
next
  case (2 k' v' d k v)
  then show ?case
    using dict_keys_dict_set [of d k v] by (auto simp: dict_keys_def)
qed

lemma set_dict_set: "set (dict_set d k v) \<subseteq> insert (k, v) (set d)"
  by (induction d k v rule: dict_set.induct) auto

lemma wf_table_map_dict_set:
  "wf_table_map tm \<Longrightarrow> name e = Some k \<Longrightarrow> wf_table_map (dict_set tm k e)"
  using set_dict_set [of tm k e] by (auto simp: wf_table_map_def distinct_dict_set)

lemma collect_tables_wf:
  "wf_table_map (fst acc) \<Longrightarrow> wf_table_map (fst (collect_tables ts acc))"
  by (induction ts acc rule: collect_tables.induct)
     (auto simp: wf_table_map_dict_set split: option.splits)

lemma collect_tables_keys:
  "set (dict_keys (fst (collect_tables ts acc))) =
   set (dict_keys (fst acc)) \<union> (the \<circ> name) ` set (valid_entries ts)"
  by (induction ts acc rule: collect_tables.induct)
     (auto simp: dict_keys_dict_set split: option.splits)

lemma wf_table_map_empty: "wf_table_map []"
  by (simp add: wf_table_map_def dict_keys_def)

lemma sort_tables_run:
  "\<exists>tm td s. collect_tables tables ([], []) = (tm, td) \<and> wf_table_map tm \<and>
     visit_all tm td (dict_keys tm) dfs_init = Inr s \<and> dfs_inv tm s \<and>
     visited s = set (dict_keys tm) \<and>
     sort_tables_by_dependencies tables = Inr (sorted_tables s)"
proof -
  obtain tm td where c: "collect_tables tables ([], []) = (tm, td)" by (cases "collect_tables tables ([], [])")
  have wf: "wf_table_map tm"
    using collect_tables_wf [of "([], [])" tables] c by (simp add: wf_table_map_empty)
  from visit_all_ok [OF wf dfs_inv_init, of "dict_keys tm" td] obtain s where
    s: "visit_all tm td (dict_keys tm) dfs_init = Inr s" "dfs_inv tm s"
       "set (dict_keys tm) \<subseteq> visited s"
    by (auto simp: dfs_init_def)
  from s(2) have "visited s \<subseteq> set (dict_keys tm)" by (simp add: dfs_inv_def)
  with s(3) have "visited s = set (dict_keys tm)" by blast
  with c wf s show ?thesis by (simp add: sort_tables_by_dependencies_def)
qed

subsection \<open>The derived dependency graph and the order of the output\<close>

text \<open>
  An edge \<open>(n, d)\<close>: the DDL stored for \<open>n\<close> has a foreign key to \<open>d\<close>, and
  \<open>d\<close> is a table of the input.
\<close>

definition dep_edges :: "(string, entry) dict \<Rightarrow> (string, string list) dict \<Rightarrow> (string \<times> string) set" where
  "dep_edges tm td = {(n, d). d \<in> set (dict_get td n []) \<and> dict_contains tm d}"

text \<open>Every record of \<open>out\<close> comes after the records of the tables it depends on.\<close>

definition deps_before :: "(string, entry) dict \<Rightarrow> (string, string list) dict \<Rightarrow> entry list \<Rightarrow> bool" where
  "deps_before tm td out =
     (\<forall>i < length out. \<forall>n d. name (out ! i) = Some n \<and> (n, d) \<in> dep_edges tm td \<longrightarrow>
        (\<exists>j < i. name (out ! j) = Some d))"

lemma deps_before_Nil: "deps_before tm td []"
  by (simp add: deps_before_def)

lemma deps_before_snoc:
  assumes "deps_before tm td xs"
    and "\<And>n d. name t = Some n \<Longrightarrow> (n, d) \<in> dep_edges tm td \<Longrightarrow> Some d \<in> set (map name xs)"
  shows "deps_before tm td (xs @ [t])"
  unfolding deps_before_def
proof (intro allI impI)
  fix i n d
  assume i: "i < length (xs @ [t])" and h: "name ((xs @ [t]) ! i) = Some n \<and> (n, d) \<in> dep_edges tm td"
  show "\<exists>j<i. name ((xs @ [t]) ! j) = Some d"
  proof (cases "i < length xs")
    case True
    with h have "name (xs ! i) = Some n \<and> (n, d) \<in> dep_edges tm td" by (simp add: nth_append)
    with True assms(1) obtain j where "j < i" "name (xs ! j) = Some d"
      unfolding deps_before_def by blast
    with True show ?thesis by (auto simp: nth_append intro!: exI [of _ j])
  next
    case False
    with i have i': "i = length xs" by simp
    with h have "name t = Some n" by simp
    from assms(2) [OF this] h have "Some d \<in> set (map name xs)" by simp
    then obtain j where "j < length xs" "name (xs ! j) = Some d"
      by (auto simp: in_set_conv_nth)
    with i' show ?thesis by (auto simp: nth_append intro!: exI [of _ j])
  qed
qed

lemma visit_topo:
  "wf_table_map tm \<Longrightarrow> dfs_inv tm s \<Longrightarrow> dict_contains tm n \<Longrightarrow> acyclic (dep_edges tm td) \<Longrightarrow>
   deps_before tm td (sorted_tables s) \<Longrightarrow> \<forall>t \<in> temp_visited s. (t, n) \<in> (dep_edges tm td)\<^sup>+ \<Longrightarrow>
   visit tm td n s = Inr s' \<Longrightarrow> deps_before tm td (sorted_tables s') \<and> n \<in> visited s'"
  "wf_table_map tm \<Longrightarrow> dfs_inv tm s \<Longrightarrow> acyclic (dep_edges tm td) \<Longrightarrow>
   deps_before tm td (sorted_tables s) \<Longrightarrow> \<forall>t \<in> temp_visited s. (t, m) \<in> (dep_edges tm td)\<^sup>* \<Longrightarrow>
   set ds \<subseteq> set (dict_get td m []) \<Longrightarrow>
   visit_deps tm td ds s = Inr s' \<Longrightarrow>
   deps_before tm td (sorted_tables s') \<and> (\<forall>d \<in> set ds. dict_contains tm d \<longrightarrow> d \<in> visited s')"
proof (induct tm td n s and tm td ds s arbitrary: s' and s' m rule: visit_visit_deps.induct)
  case (1 tm td n s)
  let ?E = "dep_edges tm td"
  from "1.prems"(4,6) have nt: "n \<notin> temp_visited s" by (auto simp: acyclic_def)
  show ?case
  proof (cases "n \<in> visited s")
    case True
    with "1.prems" nt show ?thesis by simp
  next
    case False
    let ?s1 = "s\<lparr>temp_visited := insert n (temp_visited s)\<rparr>"
    from visit_ok(2) [of tm ?s1 td "dict_get td n []"] "1.prems"(1,2) obtain s2 where
      r: "visit_deps tm td (dict_get td n []) ?s1 = Inr s2" and p: "visit_post tm ?s1 s2"
      by auto
    from wf_table_map_lookup [OF "1.prems"(1,3)] obtain t where
      t: "map_of tm n = Some t" "name t = Some n" by blast
    from p have temp2: "temp_visited s2 = insert n (temp_visited s)" and i2: "dfs_inv tm s2"
      by (simp_all add: visit_post_def)
    from nt False r temp2 t "1.prems"(7) have s':
      "s' = s2\<lparr>temp_visited := temp_visited s2 - {n}, visited := insert n (visited s2),
                sorted_tables := sorted_tables s2 @ [t]\<rparr>" by simp
    have reach: "\<forall>x \<in> temp_visited ?s1. (x, n) \<in> ?E\<^sup>*"
      using "1.prems"(6) by (auto intro: trancl_into_rtrancl)
    have "deps_before tm td (sorted_tables s2) \<and>
          (\<forall>d \<in> set (dict_get td n []). dict_contains tm d \<longrightarrow> d \<in> visited s2)"
      by (rule "1.hyps" [OF nt False _ _ "1.prems"(4) _ reach _ r])
         (use "1.prems" in simp_all)
    then have b2: "deps_before tm td (sorted_tables s2)"
      and d2: "\<And>d. (n, d) \<in> ?E \<Longrightarrow> d \<in> visited s2"
      by (auto simp: dep_edges_def)
    have "deps_before tm td (sorted_tables s2 @ [t])"
    proof (rule deps_before_snoc [OF b2])
      fix k d assume "name t = Some k" "(k, d) \<in> ?E"
      with t d2 have "d \<in> visited s2" by simp
      with i2 show "Some d \<in> set (map name (sorted_tables s2))" by (simp add: dfs_inv_def)
    qed
    with s' show ?thesis by simp
  qed
next
  case (2 tm td s)
  then show ?case by simp
next
  case (3 tm td d ds s)
  let ?E = "dep_edges tm td"
  show ?case
  proof (cases "dict_contains tm d")
    case True
    from visit_ok(1) [OF "3.prems"(1,2) True, of td] obtain s1 where
      r1: "visit tm td d s = Inr s1" and p1: "visit_post tm s s1" by blast
    from True r1 "3.prems"(7) have r2: "visit_deps tm td ds s1 = Inr s'" by simp
    from p1 have i1: "dfs_inv tm s1" and t1: "temp_visited s1 = temp_visited s"
      by (simp_all add: visit_post_def)
    from "3.prems"(6) True have e: "(m, d) \<in> ?E" by (simp add: dep_edges_def)
    have reach: "\<forall>t \<in> temp_visited s. (t, d) \<in> ?E\<^sup>+"
      using "3.prems"(5) e by (auto intro: rtrancl_into_trancl1)
    from "3.hyps"(1) [OF True "3.prems"(1,2) True "3.prems"(3,4) reach r1]
    have b1: "deps_before tm td (sorted_tables s1)" and d1: "d \<in> visited s1" by simp_all
    from "3.prems"(5) t1 have reach1: "\<forall>t \<in> temp_visited s1. (t, m) \<in> ?E\<^sup>*" by simp
    from "3.prems"(6) have sub: "set ds \<subseteq> set (dict_get td m [])" by simp
    from "3.hyps"(2) [OF True r1 "3.prems"(1) i1 "3.prems"(3) b1 reach1 sub r2]
    have b': "deps_before tm td (sorted_tables s')"
      and d': "\<forall>x \<in> set ds. dict_contains tm x \<longrightarrow> x \<in> visited s'" by simp_all
    from visit_ok(2) [OF "3.prems"(1) i1, of td ds] r2 have "visited s1 \<subseteq> visited s'"
      by (auto simp: visit_post_def)
    with b' d' d1 show ?thesis by auto
  next
    case False
    from False "3.prems"(7) have r: "visit_deps tm td ds s = Inr s'" by simp
    from "3.prems"(6) have sub: "set ds \<subseteq> set (dict_get td m [])" by simp
    from "3.hyps"(3) [OF False "3.prems"(1,2,3,4,5) sub r] False show ?thesis by simp
  qed
qed

lemma visit_all_topo:
  "wf_table_map tm \<Longrightarrow> dfs_inv tm s \<Longrightarrow> temp_visited s = {} \<Longrightarrow> set ns \<subseteq> set (dict_keys tm) \<Longrightarrow>
   acyclic (dep_edges tm td) \<Longrightarrow> deps_before tm td (sorted_tables s) \<Longrightarrow>
   visit_all tm td ns s = Inr s' \<Longrightarrow> deps_before tm td (sorted_tables s')"
proof (induction ns arbitrary: s)
  case Nil
  then show ?case by simp
next
  case (Cons n ns)
  show ?case
  proof (cases "n \<in> visited s")
    case True
    with Cons.prems have "visit_all tm td ns s = Inr s'" by simp
    from Cons.IH [OF Cons.prems(1,2,3) _ Cons.prems(5,6) this] Cons.prems(4)
    show ?thesis by simp
  next
    case False
    from Cons.prems(4) have c: "dict_contains tm n" by (simp add: dict_contains_def)
    from visit_ok(1) [OF Cons.prems(1,2) c, of td] obtain s1 where
      r: "visit tm td n s = Inr s1" and p: "visit_post tm s s1" by blast
    from p Cons.prems(3) have i1: "dfs_inv tm s1" and t1: "temp_visited s1 = {}"
      by (simp_all add: visit_post_def)
    from Cons.prems(3) have "\<forall>t \<in> temp_visited s. (t, n) \<in> (dep_edges tm td)\<^sup>+" by simp
    from visit_topo(1) [OF Cons.prems(1,2) c Cons.prems(5,6) this r]
    have b1: "deps_before tm td (sorted_tables s1)" by simp
    from False r Cons.prems(7) have r2: "visit_all tm td ns s1 = Inr s'" by simp
    from Cons.prems(4) have "set ns \<subseteq> set (dict_keys tm)" by simp
    from Cons.IH [OF Cons.prems(1) i1 t1 this Cons.prems(5) b1 r2] show ?thesis .
  qed
qed

subsection \<open>The output as a rearrangement of the input\<close>

lemma dict_set_absent: "k \<notin> set (dict_keys d) \<Longrightarrow> dict_set d k v = d @ [(k, v)]"
  by (induction d k v rule: dict_set.induct) (auto simp: dict_keys_def)

lemma collect_tables_distinct:
  "distinct (map name (valid_entries ts)) \<Longrightarrow>
   (\<forall>e \<in> set (valid_entries ts). the (name e) \<notin> set (dict_keys tm)) \<Longrightarrow>
   map snd (fst (collect_tables ts (tm, td))) = map snd tm @ valid_entries ts"
proof (induction ts arbitrary: tm td)
  case Nil
  then show ?case by simp
next
  case (Cons t ts)
  show ?case
  proof (cases t)
    case NonDict
    with Cons show ?thesis by simp
  next
    case (Dict e)
    show ?thesis
    proof (cases "name e \<noteq> None \<and> ddl e \<noteq> None")
      case False
      with Dict Cons show ?thesis by (auto split: option.splits)
    next
      case True
      then obtain n d where nd: "name e = Some n" "ddl e = Some d" by auto
      with Dict Cons.prems have fresh: "n \<notin> set (dict_keys tm)" by simp
      let ?tm = "dict_set tm n e"
      from fresh have tm': "?tm = tm @ [(n, e)]" by (rule dict_set_absent)
      from Dict nd Cons.prems(1) have d: "distinct (map name (valid_entries ts))"
        and ne: "Some n \<notin> name ` set (valid_entries ts)" by auto
      have "\<forall>x \<in> set (valid_entries ts). the (name x) \<notin> set (dict_keys ?tm)"
      proof
        fix x assume x: "x \<in> set (valid_entries ts)"
        with Dict nd Cons.prems(2) have "the (name x) \<notin> set (dict_keys tm)" by simp
        moreover have "name x \<noteq> None" using x by (induction ts rule: valid_entries.induct) (auto split: if_splits)
        with ne x have "the (name x) \<noteq> n" by force
        ultimately show "the (name x) \<notin> set (dict_keys ?tm)"
          by (simp add: tm' dict_keys_def)
      qed
      from Cons.IH [OF d this, of "dict_set td n (table_fk_deps d)"] Dict nd tm'
      show ?thesis by simp
    qed
  qed
qed

lemma dfs_inv_all_mset:
  assumes wf: "wf_table_map tm" and inv: "dfs_inv tm s" and all: "visited s = set (dict_keys tm)"
  shows "mset (sorted_tables s) = mset (map snd tm)"
proof -
  let ?L = "sorted_tables s"
  from inv have dn: "distinct (map name ?L)" by (simp add: dfs_inv_def)
  then have dL: "distinct ?L" by (rule distinct_map [THEN iffD1, THEN conjunct1])
  from wf have names: "map name (map snd tm) = map Some (dict_keys tm)"
    by (auto simp: wf_table_map_def dict_keys_def)
  from wf have "distinct (map Some (dict_keys tm))"
    by (simp add: wf_table_map_def distinct_map)
  with names have "distinct (map name (map snd tm))" by simp
  then have dT: "distinct (map snd tm)" by (rule distinct_map [THEN iffD1, THEN conjunct1])
  have "set ?L = set (map snd tm)"
  proof (intro set_eqI iffI)
    fix e assume "e \<in> set ?L"
    with inv obtain k where "map_of tm k = Some e" by (auto simp: dfs_inv_def)
    then have "(k, e) \<in> set tm" by (rule map_of_SomeD)
    then show "e \<in> set (map snd tm)" by force
  next
    fix e assume "e \<in> set (map snd tm)"
    then obtain k where ke: "(k, e) \<in> set tm" by auto
    with wf have m: "map_of tm k = Some e" and nk: "name e = Some k"
      by (auto simp: wf_table_map_def dict_keys_def)
    from ke have "k \<in> set (dict_keys tm)" by (force simp: dict_keys_def)
    with all inv have "Some k \<in> set (map name ?L)" by (simp add: dfs_inv_def)
    then obtain e' where e': "e' \<in> set ?L" "name e' = Some k" by auto
    with inv obtain k' where "name e' = Some k'" "map_of tm k' = Some e'"
      by (auto simp: dfs_inv_def)
    with e' m have "e' = e" by simp
    with e' show "e \<in> set ?L" by simp
  qed
  with dL dT show ?thesis by (rule set_eq_iff_mset_eq_distinct [THEN iffD1])
qed

lemma sort_tables_mset:
  assumes "distinct (map name (valid_entries tables))"
  shows "\<exists>out. sort_tables_by_dependencies tables = Inr out \<and> mset out = mset (valid_entries tables)"
proof -
  from sort_tables_run [of tables] obtain tm td s where
    c: "collect_tables tables ([], []) = (tm, td)" and wf: "wf_table_map tm"
    and inv: "dfs_inv tm s" and all: "visited s = set (dict_keys tm)"
    and r: "sort_tables_by_dependencies tables = Inr (sorted_tables s)" by blast
  from collect_tables_distinct [OF assms, of "[]" "[]"] c
  have "map snd tm = valid_entries tables" by (simp add: dict_keys_def)
  with dfs_inv_all_mset [OF wf inv all] r show ?thesis by simp
qed

definition is_table_record :: "item \<Rightarrow> bool" where
  "is_table_record t = (case t of Dict e \<Rightarrow> name e \<noteq> None \<and> ddl e \<noteq> None | NonDict \<Rightarrow> False)"

definition item_name :: "item \<Rightarrow> string option" where
  "item_name t = (case t of Dict e \<Rightarrow> name e | NonDict \<Rightarrow> None)"

lemma valid_entries_all:
  "\<forall>t \<in> set tables. is_table_record t \<Longrightarrow>
   map Dict (valid_entries tables) = tables \<and> map name (valid_entries tables) = map item_name tables"
  by (induction tables rule: valid_entries.induct) (auto simp: is_table_record_def item_name_def)

text \<open>
  Claim C10. For every input list of table records (each a dict with the keys \<open>"name"\<close>
  and \<open>"ddl"\<close>, no name twice), \<open>sort_tables_by_dependencies\<close> returns, and what it
  returns is a permutation of the input: every record exactly once and nothing else.
  Nothing is assumed about the dependency graph, so it may have cycles and foreign keys
  to tables that are not in the input.
\<close>

theorem sort_tables_by_dependencies_permutation:
  assumes "\<forall>t \<in> set tables. is_table_record t" and "distinct (map item_name tables)"
  shows "\<exists>out. sort_tables_by_dependencies tables = Inr out \<and> mset (map Dict out) = mset tables"
proof -
  from valid_entries_all [OF assms(1)] have v: "map Dict (valid_entries tables) = tables"
    and n: "map name (valid_entries tables) = map item_name tables" by simp_all
  from assms(2) n have "distinct (map name (valid_entries tables))" by simp
  from sort_tables_mset [OF this] obtain out where
    o: "sort_tables_by_dependencies tables = Inr out" "mset out = mset (valid_entries tables)" by blast
  from o(2) have "mset (map Dict out) = mset (map Dict (valid_entries tables))"
    by (metis mset_map)
  with v o(1) show ?thesis by simp
qed

text \<open>A table record with the two keys.\<close>

definition tbl :: "string \<Rightarrow> string \<Rightarrow> item" where
  "tbl n d = Dict \<lparr>name = Some n, ddl = Some d\<rparr>"

text \<open>
  The theorem at an input where \<open>a\<close> and \<open>b\<close> refer to each other and \<open>c\<close>
  refers to a table \<open>z\<close> that is not in the input.
\<close>

theorem sort_tables_by_dependencies_permutation_witness:
  "list_all is_table_record
     [tbl ''a'' ''CREATE TABLE a (b_id INT, FOREIGN KEY (b_id) REFERENCES b(id))'',
      tbl ''b'' ''CREATE TABLE b (a_id INT, FOREIGN KEY (a_id) REFERENCES a(id))'',
      tbl ''c'' ''CREATE TABLE c (z_id INT, FOREIGN KEY (z_id) REFERENCES z(id))''] \<and>
   (\<exists>out. sort_tables_by_dependencies
       [tbl ''a'' ''CREATE TABLE a (b_id INT, FOREIGN KEY (b_id) REFERENCES b(id))'',
        tbl ''b'' ''CREATE TABLE b (a_id INT, FOREIGN KEY (a_id) REFERENCES a(id))'',
        tbl ''c'' ''CREATE TABLE c (z_id INT, FOREIGN KEY (z_id) REFERENCES z(id))''] = Inr out \<and>
      mset (map Dict out) =
      mset [tbl ''a'' ''CREATE TABLE a (b_id INT, FOREIGN KEY (b_id) REFERENCES b(id))'',
            tbl ''b'' ''CREATE TABLE b (a_id INT, FOREIGN KEY (a_id) REFERENCES a(id))'',
            tbl ''c'' ''CREATE TABLE c (z_id INT, FOREIGN KEY (z_id) REFERENCES z(id))''])"
proof -
  let ?ts = "[tbl ''a'' ''CREATE TABLE a (b_id INT, FOREIGN KEY (b_id) REFERENCES b(id))'',
      tbl ''b'' ''CREATE TABLE b (a_id INT, FOREIGN KEY (a_id) REFERENCES a(id))'',
      tbl ''c'' ''CREATE TABLE c (z_id INT, FOREIGN KEY (z_id) REFERENCES z(id))'']"
  have h1: "\<forall>t \<in> set ?ts. is_table_record t" by (simp add: is_table_record_def tbl_def)
  have h2: "distinct (map item_name ?ts)" by (simp add: item_name_def tbl_def)
  from sort_tables_by_dependencies_permutation [OF h1 h2] h1 show ?thesis
    by (simp add: list_all_iff)
qed

subsection \<open>The sequencer on acyclic and on cyclic inputs\<close>

lemma map_of_dict_set: "map_of (dict_set d k v) = (map_of d)(k \<mapsto> v)"
  by (induction d k v rule: dict_set.induct) auto

text \<open>\<open>table_deps\<close> holds, for every name, the foreign keys of the DDL stored for it.\<close>

definition deps_consistent :: "(string, entry) dict \<Rightarrow> (string, string list) dict \<Rightarrow> bool" where
  "deps_consistent tm td =
     (\<forall>k e. map_of tm k = Some e \<longrightarrow>
        (\<exists>dd. ddl e = Some dd \<and> map_of td k = Some (table_fk_deps dd)))"

lemma collect_tables_consistent:
  "deps_consistent (fst acc) (snd acc) \<Longrightarrow>
   deps_consistent (fst (collect_tables ts acc)) (snd (collect_tables ts acc))"
proof (induction ts acc rule: collect_tables.induct)
  case (3 e ts tm td)
  show ?case
  proof (cases "name e")
    case None
    with 3 show ?thesis by simp
  next
    case (Some n)
    note n = this
    show ?thesis
    proof (cases "ddl e")
      case None
      with 3 n show ?thesis by simp
    next
      case (Some dd)
      from "3.prems" Some have
        "deps_consistent (dict_set tm n e) (dict_set td n (table_fk_deps dd))"
        by (simp add: deps_consistent_def map_of_dict_set)
      with "3.IH"(3) [OF n Some] n Some show ?thesis by simp
    qed
  qed
qed simp_all

text \<open>The names of the input tables, and the tables a record has a foreign key to.\<close>

definition input_names :: "item list \<Rightarrow> string set" where
  "input_names tables = (the \<circ> name) ` set (valid_entries tables)"

definition entry_deps :: "entry \<Rightarrow> string list" where
  "entry_deps e = (case ddl e of None \<Rightarrow> [] | Some dd \<Rightarrow> table_fk_deps dd)"

text \<open>
  The dependency graph that the sequencer derives from an input: the edges of
  \<open>table_deps\<close> that lead to a key of \<open>table_map\<close>.
\<close>

definition derived_graph :: "item list \<Rightarrow> (string \<times> string) set" where
  "derived_graph tables =
     (case collect_tables tables ([], []) of (table_map, table_deps) \<Rightarrow>
        dep_edges table_map table_deps)"

lemma sort_tables_acyclic:
  assumes "acyclic (derived_graph tables)"
  shows "\<exists>out. sort_tables_by_dependencies tables = Inr out \<and>
           set (map name out) = Some ` input_names tables \<and>
           (\<forall>i < length out. \<forall>d \<in> set (entry_deps (out ! i)). d \<in> input_names tables \<longrightarrow>
              (\<exists>j < i. name (out ! j) = Some d))"
proof -
  from sort_tables_run [of tables] obtain tm td s where
    c: "collect_tables tables ([], []) = (tm, td)" and wf: "wf_table_map tm"
    and va: "visit_all tm td (dict_keys tm) dfs_init = Inr s"
    and inv: "dfs_inv tm s" and all: "visited s = set (dict_keys tm)"
    and r: "sort_tables_by_dependencies tables = Inr (sorted_tables s)" by blast
  let ?out = "sorted_tables s"
  from assms c have ac: "acyclic (dep_edges tm td)" by (simp add: derived_graph_def)
  have keys: "set (dict_keys tm) = input_names tables"
    using collect_tables_keys [of tables "([], [])"] c by (simp add: input_names_def dict_keys_def)
  have cons: "deps_consistent tm td"
    using collect_tables_consistent [of "([], [])" tables] c by (simp add: deps_consistent_def)
  have "deps_before tm td ?out"
    by (rule visit_all_topo [OF wf dfs_inv_init _ _ ac _ va])
       (simp_all add: dfs_init_def deps_before_Nil)
  have ord: "\<forall>i < length ?out. \<forall>d \<in> set (entry_deps (?out ! i)). d \<in> input_names tables \<longrightarrow>
              (\<exists>j < i. name (?out ! j) = Some d)"
  proof (intro allI impI ballI)
    fix i d
    assume i: "i < length ?out" and d: "d \<in> set (entry_deps (?out ! i))" and p: "d \<in> input_names tables"
    from i have "?out ! i \<in> set ?out" by simp
    with inv obtain n where n: "name (?out ! i) = Some n" "map_of tm n = Some (?out ! i)"
      unfolding dfs_inv_def by blast
    with cons obtain dd where "ddl (?out ! i) = Some dd" "map_of td n = Some (table_fk_deps dd)"
      by (auto simp: deps_consistent_def)
    with d have "d \<in> set (dict_get td n [])" by (simp add: entry_deps_def dict_get_def)
    with p keys have "(n, d) \<in> dep_edges tm td" by (simp add: dep_edges_def dict_contains_def)
    with \<open>deps_before tm td ?out\<close> i n(1) show "\<exists>j < i. name (?out ! j) = Some d"
      unfolding deps_before_def by blast
  qed
  from inv all keys have "set (map name ?out) = Some ` input_names tables"
    by (simp add: dfs_inv_def)
  with r ord show ?thesis by simp
qed

lemma sort_tables_once:
  "\<exists>out. sort_tables_by_dependencies tables = Inr out \<and>
         (\<forall>n \<in> input_names tables. length (filter (\<lambda>e. name e = Some n) out) = 1)"
proof -
  from sort_tables_run [of tables] obtain tm td s where
    c: "collect_tables tables ([], []) = (tm, td)"
    and inv: "dfs_inv tm s" and all: "visited s = set (dict_keys tm)"
    and r: "sort_tables_by_dependencies tables = Inr (sorted_tables s)" by blast
  let ?out = "sorted_tables s"
  have keys: "set (dict_keys tm) = input_names tables"
    using collect_tables_keys [of tables "([], [])"] c by (simp add: input_names_def dict_keys_def)
  have "\<forall>n \<in> input_names tables. length (filter (\<lambda>e. name e = Some n) ?out) = 1"
  proof
    fix n assume "n \<in> input_names tables"
    with keys all inv have m: "Some n \<in> set (map name ?out)" and d: "distinct (map name ?out)"
      by (simp_all add: dfs_inv_def)
    have "length (filter (\<lambda>e. name e = Some n) ?out) = length (filter (\<lambda>x. x = Some n) (map name ?out))"
      by (simp add: filter_map comp_def)
    also from d have "\<dots> = card ({x. x = Some n} \<inter> set (map name ?out))"
      by (rule distinct_length_filter)
    also from m have "{x. x = Some n} \<inter> set (map name ?out) = {Some n}" by auto
    finally show "length (filter (\<lambda>e. name e = Some n) ?out) = 1" by simp
  qed
  with r show ?thesis by simp
qed

section \<open>Dependency Sequencer: \<open>sort_ddl_statements_by_dependencies\<close>\<close>

text \<open>
  The dict \<open>{'name': ..., 'ddl': ..., 'deps': ...}\<close> that the function builds for every
  \<open>CREATE TABLE\<close> statement.
\<close>

record table_info =
  ti_name :: string
  ti_ddl :: string
  ti_deps :: "string list"

text \<open>
  \<open>re.search(r'CREATE TABLE\s+(\w+)', statement_upper, re.IGNORECASE)\<close> and
  \<open>re.findall(r'REFERENCES\s+(\w+)', statement_upper, re.IGNORECASE)\<close>.
\<close>

definition create_table_pattern :: "rx list" where
  "create_table_pattern = [Lit ''CREATE TABLE'', Spaces1, WordGroup]"

definition references_pattern :: "rx list" where
  "references_pattern = [Lit ''REFERENCES'', Spaces1, WordGroup]"

text \<open>The first loop: \<open>table_statements\<close> and \<open>other_statements\<close>.\<close>

fun parse_statements ::
  "string list \<Rightarrow> table_info list \<times> string list \<Rightarrow> table_info list \<times> string list" where
  "parse_statements [] acc = acc"
| "parse_statements (statement # rest) (table_statements, other_statements) =
     (let statement_upper = py_upper statement in
      if py_startswith statement_upper ''CREATE TABLE''
      then (case rx_search True create_table_pattern statement_upper of
              Some m \<Rightarrow>
                parse_statements rest
                  (table_statements @
                     [\<lparr>ti_name = py_lower m, ti_ddl = statement,
                       ti_deps = map py_lower (rx_findall True references_pattern statement_upper)\<rparr>],
                   other_statements)
            | None \<Rightarrow> parse_statements rest (table_statements, other_statements @ [statement]))
      else parse_statements rest (table_statements, other_statements @ [statement]))"

record ddl_state =
  sorted_table_statements :: "string list"
  ddl_visited :: "string set"
  ddl_temp_visited :: "string set"

definition ddl_init :: ddl_state where
  "ddl_init = \<lparr>sorted_table_statements = [], ddl_visited = {}, ddl_temp_visited = {}\<rparr>"

definition info_names :: "table_info list \<Rightarrow> string set" where
  "info_names ts = ti_name ` set ts"

text \<open>
  \<open>visit_table\<close>; \<open>visit_table_deps\<close> is its loop over \<open>table_info['deps']\<close> and
  \<open>visit_table_others\<close> the loop over \<open>table_statements\<close> inside it.
\<close>

function visit_table :: "table_info list \<Rightarrow> table_info \<Rightarrow> ddl_state \<Rightarrow> py_error + ddl_state"
  and visit_table_deps :: "table_info list \<Rightarrow> string list \<Rightarrow> ddl_state \<Rightarrow> py_error + ddl_state"
  and visit_table_others ::
    "table_info list \<Rightarrow> string \<Rightarrow> table_info list \<Rightarrow> ddl_state \<Rightarrow> py_error + ddl_state"
where
  "visit_table table_statements table_info s =
     (if ti_name table_info \<in> ddl_temp_visited s then Inr s
      else if ti_name table_info \<in> ddl_visited s then Inr s
      else
        (case visit_table_deps table_statements (ti_deps table_info)
                (s\<lparr>ddl_temp_visited := insert (ti_name table_info) (ddl_temp_visited s)\<rparr>) of
           Inl e \<Rightarrow> Inl e
         | Inr s1 \<Rightarrow>
             if ti_name table_info \<notin> ddl_temp_visited s1 then Inl (KeyError (ti_name table_info))
             else
               Inr (s1\<lparr>ddl_temp_visited := ddl_temp_visited s1 - {ti_name table_info},
                       ddl_visited := insert (ti_name table_info) (ddl_visited s1),
                       sorted_table_statements :=
                         sorted_table_statements s1 @ [ti_ddl table_info]\<rparr>)))"
| "visit_table_deps table_statements [] s = Inr s"
| "visit_table_deps table_statements (dep # deps) s =
     (case visit_table_others table_statements dep table_statements s of
        Inl e \<Rightarrow> Inl e
      | Inr s' \<Rightarrow> visit_table_deps table_statements deps s')"
| "visit_table_others table_statements dep [] s = Inr s"
| "visit_table_others table_statements dep (other_table # rest) s =
     (if ti_name other_table = dep
      then (case visit_table table_statements other_table s of
              Inl e \<Rightarrow> Inl e
            | Inr s' \<Rightarrow> visit_table_others table_statements dep rest s')
      else visit_table_others table_statements dep rest s)"
  by pat_completeness auto

lemma visit_table_temp_partial:
  "visit_table_visit_table_deps_visit_table_others_dom (Inl (ts, ti, s)) \<Longrightarrow>
   visit_table ts ti s = Inr s' \<Longrightarrow> ddl_temp_visited s' = ddl_temp_visited s"
  "visit_table_visit_table_deps_visit_table_others_dom (Inr (Inl (ts, ds, s))) \<Longrightarrow>
   visit_table_deps ts ds s = Inr s' \<Longrightarrow> ddl_temp_visited s' = ddl_temp_visited s"
  "visit_table_visit_table_deps_visit_table_others_dom (Inr (Inr (ts, d, os, s))) \<Longrightarrow>
   visit_table_others ts d os s = Inr s' \<Longrightarrow> ddl_temp_visited s' = ddl_temp_visited s"
proof (induct ts ti s and ts ds s and ts d os s arbitrary: s' and s' and s'
    rule: visit_table_visit_table_deps_visit_table_others.pinduct)
  case (1 ts ti s)
  note eq = visit_table.psimps [OF "1.hyps"(1)]
  let ?n = "ti_name ti"
  show ?case
  proof (cases "?n \<in> ddl_temp_visited s \<or> ?n \<in> ddl_visited s")
    case True
    with "1.prems" eq show ?thesis by (simp split: if_splits)
  next
    case False
    let ?s1 = "s\<lparr>ddl_temp_visited := insert ?n (ddl_temp_visited s)\<rparr>"
    from False "1.prems" eq obtain s1 where
      r: "visit_table_deps ts (ti_deps ti) ?s1 = Inr s1" and
      s': "s' = s1\<lparr>ddl_temp_visited := ddl_temp_visited s1 - {?n},
                    ddl_visited := insert ?n (ddl_visited s1),
                    sorted_table_statements := sorted_table_statements s1 @ [ti_ddl ti]\<rparr>"
      by (auto split: sum.splits if_splits)
    from False have "ddl_temp_visited s1 = ddl_temp_visited ?s1"
      using "1.hyps"(2) [OF _ _ r] by simp
    with s' False show ?thesis by auto
  qed
next
  case (2 ts s)
  then show ?case by (simp add: visit_table_deps.psimps)
next
  case (3 ts d ds s)
  note eq = visit_table_deps.psimps(2) [OF "3.hyps"(1)]
  from "3.prems" eq obtain s1 where
    r: "visit_table_others ts d ts s = Inr s1" and r2: "visit_table_deps ts ds s1 = Inr s'"
    by (simp split: sum.splits)
  from "3.hyps"(2) [OF r] "3.hyps"(3) [OF r r2] show ?case by simp
next
  case (4 ts d s)
  then show ?case by (simp add: visit_table_others.psimps)
next
  case (5 ts d ot os s)
  note eq = visit_table_others.psimps(2) [OF "5.hyps"(1)]
  show ?case
  proof (cases "ti_name ot = d")
    case True
    with "5.prems" eq obtain s1 where
      r: "visit_table ts ot s = Inr s1" and r2: "visit_table_others ts d os s1 = Inr s'"
      by (simp split: sum.splits)
    from "5.hyps"(2) [OF True r] "5.hyps"(3) [OF True r r2] show ?thesis by simp
  next
    case False
    with "5.prems" eq have "visit_table_others ts d os s = Inr s'" by simp
    with "5.hyps"(4) [OF False] show ?thesis by simp
  qed
qed

definition ddl_measure :: "string set \<Rightarrow> ddl_state \<Rightarrow> nat" where
  "ddl_measure U s = card (U - ddl_temp_visited s)"

lemma ddl_measure_mono:
  "finite V \<Longrightarrow> U \<subseteq> V \<Longrightarrow> ddl_temp_visited s' = ddl_temp_visited s \<Longrightarrow>
   ddl_measure U s' \<le> ddl_measure V s"
  unfolding ddl_measure_def by (intro card_mono) auto

lemma ddl_measure_insert:
  "finite U \<Longrightarrow> n \<notin> ddl_temp_visited s \<Longrightarrow>
   ddl_measure U (s\<lparr>ddl_temp_visited := insert n (ddl_temp_visited s)\<rparr>) < ddl_measure (insert n U) s"
  unfolding ddl_measure_def by (intro psubset_card_mono) auto

termination visit_table
proof (relation "measures
    [\<lambda>x. case x of
            Inl (ts, ti, s) \<Rightarrow> ddl_measure (insert (ti_name ti) (info_names ts)) s
          | Inr (Inl (ts, ds, s)) \<Rightarrow> ddl_measure (info_names ts) s
          | Inr (Inr (ts, d, os, s)) \<Rightarrow> ddl_measure (info_names ts \<union> info_names os) s,
     \<lambda>x. case x of Inl _ \<Rightarrow> 0 | Inr (Inl _) \<Rightarrow> 2 | Inr (Inr _) \<Rightarrow> 1,
     \<lambda>x. case x of Inl _ \<Rightarrow> 0 | Inr (Inl (ts, ds, s)) \<Rightarrow> length ds
          | Inr (Inr (ts, d, os, s)) \<Rightarrow> length os]", goal_cases)
  case 1
  then show ?case by simp
next
  case (2 ts ti s)
  then show ?case by (simp add: ddl_measure_insert info_names_def)
next
  case (3 ts d ds s)
  then show ?case by simp
next
  case (4 ts d ds s s')
  then show ?case using visit_table_temp_partial(3) by (simp add: ddl_measure_def)
next
  case (5 ts d ot os s)
  have "ddl_measure (insert (ti_name ot) (info_names ts)) s
        \<le> ddl_measure (info_names ts \<union> info_names (ot # os)) s"
    by (rule ddl_measure_mono) (auto simp: info_names_def)
  then show ?case by auto
next
  case (6 ts d ot os s s')
  from 6 visit_table_temp_partial(1) have "ddl_temp_visited s' = ddl_temp_visited s" by simp
  then have "ddl_measure (info_names ts \<union> info_names os) s'
        \<le> ddl_measure (info_names ts \<union> info_names (ot # os)) s"
    by (intro ddl_measure_mono) (auto simp: info_names_def)
  then show ?case by auto
next
  case (7 ts d ot os s)
  have "ddl_measure (info_names ts \<union> info_names os) s
        \<le> ddl_measure (info_names ts \<union> info_names (ot # os)) s"
    by (rule ddl_measure_mono) (auto simp: info_names_def)
  then show ?case by auto
qed

text \<open>The last loop, and the function.\<close>

fun visit_all_tables :: "table_info list \<Rightarrow> table_info list \<Rightarrow> ddl_state \<Rightarrow> py_error + ddl_state" where
  "visit_all_tables table_statements [] s = Inr s"
| "visit_all_tables table_statements (table_info # rest) s =
     (if ti_name table_info \<notin> ddl_visited s
      then (case visit_table table_statements table_info s of
              Inl e \<Rightarrow> Inl e
            | Inr s' \<Rightarrow> visit_all_tables table_statements rest s')
      else visit_all_tables table_statements rest s)"

definition sort_ddl_statements_by_dependencies :: "string list \<Rightarrow> py_error + string list" where
  "sort_ddl_statements_by_dependencies ddl_statements =
     (case parse_statements ddl_statements ([], []) of
        (table_statements, other_statements) \<Rightarrow>
          (case visit_all_tables table_statements table_statements ddl_init of
             Inl e \<Rightarrow> Inl e
           | Inr s \<Rightarrow> Inr (sorted_table_statements s @ other_statements)))"

subsection \<open>What a visit of a table statement establishes\<close>

text \<open>The name and the dependencies that the first loop reads off a statement.\<close>

definition stmt_table_name :: "string \<Rightarrow> string option" where
  "stmt_table_name statement =
     (if py_startswith (py_upper statement) ''CREATE TABLE''
      then map_option py_lower (rx_search True create_table_pattern (py_upper statement))
      else None)"

definition stmt_deps :: "string \<Rightarrow> string list" where
  "stmt_deps statement = map py_lower (rx_findall True references_pattern (py_upper statement))"

definition wf_infos :: "table_info list \<Rightarrow> bool" where
  "wf_infos ts =
     (\<forall>ti \<in> set ts. stmt_table_name (ti_ddl ti) = Some (ti_name ti) \<and>
                     ti_deps ti = stmt_deps (ti_ddl ti))"

definition ddl_inv :: "table_info list \<Rightarrow> ddl_state \<Rightarrow> bool" where
  "ddl_inv ts s =
     (distinct (map stmt_table_name (sorted_table_statements s)) \<and>
      set (map stmt_table_name (sorted_table_statements s)) = Some ` ddl_visited s \<and>
      set (sorted_table_statements s) \<subseteq> ti_ddl ` set ts \<and>
      ddl_visited s \<subseteq> info_names ts)"

definition ddl_post :: "table_info list \<Rightarrow> ddl_state \<Rightarrow> ddl_state \<Rightarrow> bool" where
  "ddl_post ts s s' =
     (ddl_inv ts s' \<and> ddl_temp_visited s' = ddl_temp_visited s \<and>
      ddl_visited s \<subseteq> ddl_visited s' \<and>
      ddl_visited s' \<inter> ddl_temp_visited s \<subseteq> ddl_visited s)"

lemma ddl_inv_temp [simp]: "ddl_inv ts (s\<lparr>ddl_temp_visited := T\<rparr>) = ddl_inv ts s"
  by (simp add: ddl_inv_def)

lemma ddl_inv_emit:
  assumes inv: "ddl_inv ts s" and wf: "wf_infos ts" and ti: "ti \<in> set ts"
    and n: "ti_name ti \<notin> ddl_visited s"
  shows "ddl_inv ts (s\<lparr>ddl_temp_visited := T, ddl_visited := insert (ti_name ti) (ddl_visited s),
                       sorted_table_statements := sorted_table_statements s @ [ti_ddl ti]\<rparr>)"
proof -
  from wf ti have "stmt_table_name (ti_ddl ti) = Some (ti_name ti)" by (simp add: wf_infos_def)
  with inv ti n show ?thesis
    by (auto simp: ddl_inv_def info_names_def)
qed

lemma visit_table_ok:
  "wf_infos ts \<Longrightarrow> ti \<in> set ts \<Longrightarrow> ddl_inv ts s \<Longrightarrow>
     \<exists>s'. visit_table ts ti s = Inr s' \<and> ddl_post ts s s' \<and>
          (ti_name ti \<notin> ddl_temp_visited s \<longrightarrow> ti_name ti \<in> ddl_visited s')"
  "wf_infos ts \<Longrightarrow> ddl_inv ts s \<Longrightarrow>
     \<exists>s'. visit_table_deps ts ds s = Inr s' \<and> ddl_post ts s s' \<and>
          (\<forall>d \<in> set ds. d \<in> info_names ts \<and> d \<notin> ddl_temp_visited s \<longrightarrow> d \<in> ddl_visited s')"
  "wf_infos ts \<Longrightarrow> set os \<subseteq> set ts \<Longrightarrow> ddl_inv ts s \<Longrightarrow>
     \<exists>s'. visit_table_others ts d os s = Inr s' \<and> ddl_post ts s s' \<and>
          (d \<in> info_names os \<and> d \<notin> ddl_temp_visited s \<longrightarrow> d \<in> ddl_visited s')"
proof (induct ts ti s and ts ds s and ts d os s
    rule: visit_table_visit_table_deps_visit_table_others.induct)
  case (1 ts ti s)
  let ?n = "ti_name ti"
  show ?case
  proof (cases "?n \<in> ddl_temp_visited s \<or> ?n \<in> ddl_visited s")
    case True
    with "1.prems" show ?thesis by (auto simp: ddl_post_def)
  next
    case False
    let ?s1 = "s\<lparr>ddl_temp_visited := insert ?n (ddl_temp_visited s)\<rparr>"
    from False "1.hyps" "1.prems" obtain s2 where
      r: "visit_table_deps ts (ti_deps ti) ?s1 = Inr s2" and p: "ddl_post ts ?s1 s2"
      by force
    from p have temp2: "ddl_temp_visited s2 = insert ?n (ddl_temp_visited s)"
      by (simp add: ddl_post_def)
    from p False have nv: "?n \<notin> ddl_visited s2" by (auto simp: ddl_post_def)
    let ?s' = "s2\<lparr>ddl_temp_visited := ddl_temp_visited s2 - {?n},
                   ddl_visited := insert ?n (ddl_visited s2),
                   sorted_table_statements := sorted_table_statements s2 @ [ti_ddl ti]\<rparr>"
    from False r temp2 have v: "visit_table ts ti s = Inr ?s'" by simp
    from p have "ddl_inv ts s2" by (simp add: ddl_post_def)
    from ddl_inv_emit [OF this "1.prems"(1,2) nv] have "ddl_inv ts ?s'" .
    with p temp2 False have "ddl_post ts s ?s'"
      by (auto simp: ddl_post_def)
    with v show ?thesis by simp
  qed
next
  case (2 ts s)
  then show ?case by (simp add: ddl_post_def)
next
  case (3 ts d ds s)
  from "3.hyps"(1) [OF "3.prems"(1) _ "3.prems"(2)] obtain s1 where
    r1: "visit_table_others ts d ts s = Inr s1" and p1: "ddl_post ts s s1"
    and d1: "d \<in> info_names ts \<and> d \<notin> ddl_temp_visited s \<longrightarrow> d \<in> ddl_visited s1" by blast
  from p1 have "ddl_inv ts s1" by (simp add: ddl_post_def)
  from "3.hyps"(2) [OF r1 "3.prems"(1) this] obtain s' where
    r2: "visit_table_deps ts ds s1 = Inr s'" and p2: "ddl_post ts s1 s'"
    and d2: "\<forall>x \<in> set ds. x \<in> info_names ts \<and> x \<notin> ddl_temp_visited s1 \<longrightarrow> x \<in> ddl_visited s'"
    by blast
  from r1 r2 have "visit_table_deps ts (d # ds) s = Inr s'" by simp
  moreover from p1 p2 have "ddl_post ts s s'" by (auto simp: ddl_post_def)
  moreover from p1 p2 d1 d2 have
    "\<forall>x \<in> set (d # ds). x \<in> info_names ts \<and> x \<notin> ddl_temp_visited s \<longrightarrow> x \<in> ddl_visited s'"
    by (auto simp: ddl_post_def)
  ultimately show ?case by blast
next
  case (4 ts d s)
  then show ?case by (simp add: ddl_post_def info_names_def)
next
  case (5 ts d ot os s)
  from "5.prems"(2) have ot: "ot \<in> set ts" and os: "set os \<subseteq> set ts" by simp_all
  show ?case
  proof (cases "ti_name ot = d")
    case True
    from "5.hyps"(1) [OF True "5.prems"(1) ot "5.prems"(3)] obtain s1 where
      r1: "visit_table ts ot s = Inr s1" and p1: "ddl_post ts s s1"
      and d1: "ti_name ot \<notin> ddl_temp_visited s \<longrightarrow> ti_name ot \<in> ddl_visited s1" by blast
    from p1 have "ddl_inv ts s1" by (simp add: ddl_post_def)
    from "5.hyps"(2) [OF True r1 "5.prems"(1) os this] obtain s' where
      r2: "visit_table_others ts d os s1 = Inr s'" and p2: "ddl_post ts s1 s'" by blast
    from True r1 r2 have "visit_table_others ts d (ot # os) s = Inr s'" by simp
    moreover from p1 p2 have "ddl_post ts s s'" by (auto simp: ddl_post_def)
    moreover from p2 d1 True have "d \<notin> ddl_temp_visited s \<longrightarrow> d \<in> ddl_visited s'"
      by (auto simp: ddl_post_def)
    ultimately show ?thesis by blast
  next
    case False
    from "5.hyps"(3) [OF False "5.prems"(1) os "5.prems"(3)] False show ?thesis
      by (auto simp: info_names_def)
  qed
qed

text \<open>The dependency graph on the names of the table statements.\<close>

definition ddl_edges :: "table_info list \<Rightarrow> (string \<times> string) set" where
  "ddl_edges ts =
     {(n, d). \<exists>ti \<in> set ts. ti_name ti = n \<and> d \<in> set (ti_deps ti) \<and> d \<in> info_names ts}"

definition ddl_before :: "table_info list \<Rightarrow> string list \<Rightarrow> bool" where
  "ddl_before ts out =
     (\<forall>i < length out. \<forall>d \<in> set (stmt_deps (out ! i)). d \<in> info_names ts \<longrightarrow>
        (\<exists>j < i. stmt_table_name (out ! j) = Some d))"

lemma ddl_before_Nil: "ddl_before ts []"
  by (simp add: ddl_before_def)

lemma ddl_before_snoc:
  assumes "ddl_before ts xs"
    and "\<And>d. d \<in> set (stmt_deps st) \<Longrightarrow> d \<in> info_names ts \<Longrightarrow> Some d \<in> set (map stmt_table_name xs)"
  shows "ddl_before ts (xs @ [st])"
  unfolding ddl_before_def
proof (intro allI impI ballI)
  fix i d
  assume i: "i < length (xs @ [st])" and d: "d \<in> set (stmt_deps ((xs @ [st]) ! i))"
    and p: "d \<in> info_names ts"
  show "\<exists>j<i. stmt_table_name ((xs @ [st]) ! j) = Some d"
  proof (cases "i < length xs")
    case True
    with d have "d \<in> set (stmt_deps (xs ! i))" by (simp add: nth_append)
    with True p assms(1) obtain j where "j < i" "stmt_table_name (xs ! j) = Some d"
      unfolding ddl_before_def by blast
    with True show ?thesis by (auto simp: nth_append intro!: exI [of _ j])
  next
    case False
    with i have i': "i = length xs" by simp
    with d have "d \<in> set (stmt_deps st)" by simp
    from assms(2) [OF this p] obtain j where "j < length xs" "stmt_table_name (xs ! j) = Some d"
      by (auto simp: in_set_conv_nth)
    with i' show ?thesis by (auto simp: nth_append intro!: exI [of _ j])
  qed
qed

lemma visit_table_topo:
  "wf_infos ts \<Longrightarrow> ti \<in> set ts \<Longrightarrow> ddl_inv ts s \<Longrightarrow> acyclic (ddl_edges ts) \<Longrightarrow>
   ddl_before ts (sorted_table_statements s) \<Longrightarrow>
   \<forall>t \<in> ddl_temp_visited s. (t, ti_name ti) \<in> (ddl_edges ts)\<^sup>+ \<Longrightarrow>
   visit_table ts ti s = Inr s' \<Longrightarrow>
   ddl_before ts (sorted_table_statements s') \<and> ti_name ti \<in> ddl_visited s'"
  "wf_infos ts \<Longrightarrow> ddl_inv ts s \<Longrightarrow> acyclic (ddl_edges ts) \<Longrightarrow>
   ddl_before ts (sorted_table_statements s) \<Longrightarrow>
   \<forall>t \<in> ddl_temp_visited s. (t, m) \<in> (ddl_edges ts)\<^sup>* \<Longrightarrow>
   \<forall>d \<in> set ds. d \<in> info_names ts \<longrightarrow> (m, d) \<in> ddl_edges ts \<Longrightarrow>
   visit_table_deps ts ds s = Inr s' \<Longrightarrow>
   ddl_before ts (sorted_table_statements s') \<and>
   (\<forall>d \<in> set ds. d \<in> info_names ts \<longrightarrow> d \<in> ddl_visited s')"
  "wf_infos ts \<Longrightarrow> set os \<subseteq> set ts \<Longrightarrow> ddl_inv ts s \<Longrightarrow> acyclic (ddl_edges ts) \<Longrightarrow>
   ddl_before ts (sorted_table_statements s) \<Longrightarrow>
   \<forall>t \<in> ddl_temp_visited s. (t, m) \<in> (ddl_edges ts)\<^sup>* \<Longrightarrow>
   d \<in> info_names ts \<longrightarrow> (m, d) \<in> ddl_edges ts \<Longrightarrow>
   visit_table_others ts d os s = Inr s' \<Longrightarrow>
   ddl_before ts (sorted_table_statements s') \<and> (d \<in> info_names os \<longrightarrow> d \<in> ddl_visited s')"
proof (induct ts ti s and ts ds s and ts d os s arbitrary: s' and s' m and s' m
    rule: visit_table_visit_table_deps_visit_table_others.induct)
  case (1 ts ti s)
  let ?E = "ddl_edges ts" and ?n = "ti_name ti"
  from "1.prems"(4,6) have nt: "?n \<notin> ddl_temp_visited s" by (auto simp: acyclic_def)
  show ?case
  proof (cases "?n \<in> ddl_visited s")
    case True
    with "1.prems" nt show ?thesis by simp
  next
    case False
    let ?s1 = "s\<lparr>ddl_temp_visited := insert ?n (ddl_temp_visited s)\<rparr>"
    from visit_table_ok(2) [of ts ?s1 "ti_deps ti"] "1.prems"(1,3) obtain s2 where
      r: "visit_table_deps ts (ti_deps ti) ?s1 = Inr s2" and p: "ddl_post ts ?s1 s2"
      by auto
    from p have temp2: "ddl_temp_visited s2 = insert ?n (ddl_temp_visited s)"
      and i2: "ddl_inv ts s2"
      by (simp_all add: ddl_post_def)
    from nt False r temp2 "1.prems"(7) have s':
      "s' = s2\<lparr>ddl_temp_visited := ddl_temp_visited s2 - {?n},
                ddl_visited := insert ?n (ddl_visited s2),
                sorted_table_statements := sorted_table_statements s2 @ [ti_ddl ti]\<rparr>" by simp
    have reach: "\<forall>x \<in> ddl_temp_visited ?s1. (x, ?n) \<in> ?E\<^sup>*"
      using "1.prems"(6) by (auto intro: trancl_into_rtrancl)
    have edges: "\<forall>d \<in> set (ti_deps ti). d \<in> info_names ts \<longrightarrow> (?n, d) \<in> ?E"
      using "1.prems"(2) by (auto simp: ddl_edges_def)
    have "ddl_before ts (sorted_table_statements s2) \<and>
          (\<forall>d \<in> set (ti_deps ti). d \<in> info_names ts \<longrightarrow> d \<in> ddl_visited s2)"
      by (rule "1.hyps" [OF nt False "1.prems"(1) _ "1.prems"(4) _ reach edges r])
         (use "1.prems" in simp_all)
    then have b2: "ddl_before ts (sorted_table_statements s2)"
      and d2: "\<And>d. d \<in> set (ti_deps ti) \<Longrightarrow> d \<in> info_names ts \<Longrightarrow> d \<in> ddl_visited s2"
      by auto
    from "1.prems"(1,2) have deps: "ti_deps ti = stmt_deps (ti_ddl ti)" by (simp add: wf_infos_def)
    have "ddl_before ts (sorted_table_statements s2 @ [ti_ddl ti])"
    proof (rule ddl_before_snoc [OF b2])
      fix d assume "d \<in> set (stmt_deps (ti_ddl ti))" "d \<in> info_names ts"
      with deps d2 have "d \<in> ddl_visited s2" by simp
      with i2 show "Some d \<in> set (map stmt_table_name (sorted_table_statements s2))"
        by (simp add: ddl_inv_def)
    qed
    with s' show ?thesis by simp
  qed
next
  case (2 ts s)
  then show ?case by simp
next
  case (3 ts d ds s)
  let ?E = "ddl_edges ts"
  from visit_table_ok(3) [OF "3.prems"(1) _ "3.prems"(2), of ts d] obtain s1 where
    r1: "visit_table_others ts d ts s = Inr s1" and p1: "ddl_post ts s s1" by blast
  from r1 "3.prems"(7) have r2: "visit_table_deps ts ds s1 = Inr s'" by simp
  from p1 have i1: "ddl_inv ts s1" and t1: "ddl_temp_visited s1 = ddl_temp_visited s"
    by (simp_all add: ddl_post_def)
  from "3.prems"(6) have e: "d \<in> info_names ts \<longrightarrow> (m, d) \<in> ?E" by simp
  from "3.hyps"(1) [OF "3.prems"(1) _ "3.prems"(2,3,4,5) e r1]
  have b1: "ddl_before ts (sorted_table_statements s1)"
    and d1: "d \<in> info_names ts \<longrightarrow> d \<in> ddl_visited s1" by simp_all
  from "3.prems"(5) t1 have reach1: "\<forall>t \<in> ddl_temp_visited s1. (t, m) \<in> ?E\<^sup>*" by simp
  from "3.prems"(6) have sub: "\<forall>x \<in> set ds. x \<in> info_names ts \<longrightarrow> (m, x) \<in> ?E" by simp
  from "3.hyps"(2) [OF r1 "3.prems"(1) i1 "3.prems"(3) b1 reach1 sub r2]
  have b': "ddl_before ts (sorted_table_statements s')"
    and d': "\<forall>x \<in> set ds. x \<in> info_names ts \<longrightarrow> x \<in> ddl_visited s'" by simp_all
  from visit_table_ok(2) [OF "3.prems"(1) i1, of ds] r2 have "ddl_visited s1 \<subseteq> ddl_visited s'"
    by (auto simp: ddl_post_def)
  with b' d' d1 show ?case by auto
next
  case (4 ts d s)
  then show ?case by (simp add: info_names_def)
next
  case (5 ts d ot os s)
  let ?E = "ddl_edges ts"
  from "5.prems"(2) have ot: "ot \<in> set ts" and os: "set os \<subseteq> set ts" by simp_all
  show ?case
  proof (cases "ti_name ot = d")
    case True
    from visit_table_ok(1) [OF "5.prems"(1) ot "5.prems"(3)] obtain s1 where
      r1: "visit_table ts ot s = Inr s1" and p1: "ddl_post ts s s1" by blast
    from True r1 "5.prems"(8) have r2: "visit_table_others ts d os s1 = Inr s'" by simp
    from p1 have i1: "ddl_inv ts s1" and t1: "ddl_temp_visited s1 = ddl_temp_visited s"
      by (simp_all add: ddl_post_def)
    from ot True have "d \<in> info_names ts" by (auto simp: info_names_def)
    with "5.prems"(7) have e: "(m, d) \<in> ?E" by simp
    have reach: "\<forall>t \<in> ddl_temp_visited s. (t, ti_name ot) \<in> ?E\<^sup>+"
      using "5.prems"(6) e True by (auto intro: rtrancl_into_trancl1)
    from "5.hyps"(1) [OF True "5.prems"(1) ot "5.prems"(3,4,5) reach r1]
    have b1: "ddl_before ts (sorted_table_statements s1)" and d1: "d \<in> ddl_visited s1"
      using True by simp_all
    from "5.prems"(6) t1 have reach1: "\<forall>t \<in> ddl_temp_visited s1. (t, m) \<in> ?E\<^sup>*" by simp
    from "5.hyps"(2) [OF True r1 "5.prems"(1) os i1 "5.prems"(4) b1 reach1 "5.prems"(7) r2]
    have b': "ddl_before ts (sorted_table_statements s')" by simp
    from visit_table_ok(3) [OF "5.prems"(1) os i1, of d] r2 have "ddl_visited s1 \<subseteq> ddl_visited s'"
      by (auto simp: ddl_post_def)
    with b' d1 show ?thesis by auto
  next
    case False
    from False "5.prems"(8) have r: "visit_table_others ts d os s = Inr s'" by simp
    from "5.hyps"(3) [OF False "5.prems"(1) os "5.prems"(3,4,5,6,7) r] False show ?thesis
      by (auto simp: info_names_def)
  qed
qed

lemma ddl_inv_init: "ddl_inv ts ddl_init"
  by (simp add: ddl_inv_def ddl_init_def)

lemma visit_all_tables_ok:
  "wf_infos ts \<Longrightarrow> ddl_inv ts s \<Longrightarrow> ddl_temp_visited s = {} \<Longrightarrow> set tis \<subseteq> set ts \<Longrightarrow>
   \<exists>s'. visit_all_tables ts tis s = Inr s' \<and> ddl_inv ts s' \<and> ddl_temp_visited s' = {} \<and>
        ddl_visited s \<union> info_names tis \<subseteq> ddl_visited s' \<and>
        (acyclic (ddl_edges ts) \<and> ddl_before ts (sorted_table_statements s) \<longrightarrow>
           ddl_before ts (sorted_table_statements s'))"
proof (induction tis arbitrary: s)
  case Nil
  then show ?case by (simp add: info_names_def)
next
  case (Cons ti tis)
  from Cons.prems(4) have ti: "ti \<in> set ts" and tis: "set tis \<subseteq> set ts" by simp_all
  show ?case
  proof (cases "ti_name ti \<in> ddl_visited s")
    case True
    with Cons.IH [OF Cons.prems(1,2,3) tis] show ?thesis by (auto simp: info_names_def)
  next
    case False
    from visit_table_ok(1) [OF Cons.prems(1) ti Cons.prems(2)] Cons.prems(3) obtain s1 where
      r: "visit_table ts ti s = Inr s1" and p: "ddl_post ts s s1" and n: "ti_name ti \<in> ddl_visited s1"
      by auto
    from p Cons.prems(3) have i1: "ddl_inv ts s1" and t1: "ddl_temp_visited s1 = {}"
      and m1: "ddl_visited s \<subseteq> ddl_visited s1"
      by (simp_all add: ddl_post_def)
    from Cons.IH [OF Cons.prems(1) i1 t1 tis] obtain s' where
      s': "visit_all_tables ts tis s1 = Inr s'" "ddl_inv ts s'" "ddl_temp_visited s' = {}"
      "ddl_visited s1 \<union> info_names tis \<subseteq> ddl_visited s'"
      "acyclic (ddl_edges ts) \<and> ddl_before ts (sorted_table_statements s1) \<longrightarrow>
           ddl_before ts (sorted_table_statements s')" by blast
    have "acyclic (ddl_edges ts) \<and> ddl_before ts (sorted_table_statements s) \<longrightarrow>
           ddl_before ts (sorted_table_statements s1)"
    proof
      assume a: "acyclic (ddl_edges ts) \<and> ddl_before ts (sorted_table_statements s)"
      from Cons.prems(3) have "\<forall>t \<in> ddl_temp_visited s. (t, ti_name ti) \<in> (ddl_edges ts)\<^sup>+" by simp
      from visit_table_topo(1) [OF Cons.prems(1) ti Cons.prems(2) _ _ this r] a
      show "ddl_before ts (sorted_table_statements s1)" by simp
    qed
    with False r n m1 s' show ?thesis by (auto simp: info_names_def)
  qed
qed

subsection \<open>The statement sequencer on acyclic and on cyclic inputs\<close>

text \<open>The table names of a list of statements, and the dependency graph derived from it.\<close>

definition stmt_names :: "string list \<Rightarrow> string set" where
  "stmt_names stmts = {n. \<exists>st \<in> set stmts. stmt_table_name st = Some n}"

definition stmt_graph :: "string list \<Rightarrow> (string \<times> string) set" where
  "stmt_graph stmts =
     {(n, d). \<exists>st \<in> set stmts. stmt_table_name st = Some n \<and> d \<in> set (stmt_deps st) \<and>
                                d \<in> stmt_names stmts}"

definition parse_inv :: "string list \<Rightarrow> table_info list \<times> string list \<Rightarrow> bool" where
  "parse_inv stmts acc =
     (wf_infos (fst acc) \<and> (\<forall>st \<in> set (snd acc). stmt_table_name st = None) \<and>
      ti_ddl ` set (fst acc) \<union> set (snd acc) = set stmts)"

lemma parse_statements_inv:
  "parse_inv seen acc \<Longrightarrow> parse_inv (seen @ stmts) (parse_statements stmts acc)"
proof (induction stmts acc arbitrary: seen rule: parse_statements.induct)
  case (1 acc)
  then show ?case by simp
next
  case (2 statement rest ts os)
  let ?u = "py_upper statement"
  show ?case
  proof (cases "py_startswith ?u ''CREATE TABLE''")
    case False
    with "2.prems" have "parse_inv (seen @ [statement]) (ts, os @ [statement])"
      by (auto simp: parse_inv_def stmt_table_name_def)
    from "2.IH"(3) [OF refl False this] False show ?thesis by simp
  next
    case True
    show ?thesis
    proof (cases "rx_search True create_table_pattern ?u")
      case None
      with True "2.prems" have "parse_inv (seen @ [statement]) (ts, os @ [statement])"
        by (auto simp: parse_inv_def stmt_table_name_def)
      from "2.IH"(1) [OF refl True None this] True None show ?thesis by simp
    next
      case (Some m)
      let ?ti = "\<lparr>ti_name = py_lower m, ti_ddl = statement,
                   ti_deps = map py_lower (rx_findall True references_pattern ?u)\<rparr>"
      from True Some "2.prems" have "parse_inv (seen @ [statement]) (ts @ [?ti], os)"
        by (auto simp: parse_inv_def stmt_table_name_def wf_infos_def stmt_deps_def)
      from "2.IH"(2) [OF refl True Some this] True Some show ?thesis by simp
    qed
  qed
qed

lemma parse_statements_facts:
  assumes "parse_statements stmts ([], []) = (ts, os)"
  shows "wf_infos ts" and "\<forall>st \<in> set os. stmt_table_name st = None"
    and "info_names ts = stmt_names stmts" and "ddl_edges ts = stmt_graph stmts"
proof -
  have "parse_inv [] ([], [])" by (simp add: parse_inv_def wf_infos_def)
  from parse_statements_inv [OF this, of stmts] assms have inv: "parse_inv stmts (ts, os)" by simp
  then show wf: "wf_infos ts" and os: "\<forall>st \<in> set os. stmt_table_name st = None"
    by (simp_all add: parse_inv_def)
  from inv have cover: "ti_ddl ` set ts \<union> set os = set stmts" by (simp add: parse_inv_def)
  have tab: "(\<exists>st \<in> set stmts. stmt_table_name st = Some n \<and> P st) \<longleftrightarrow>
             (\<exists>ti \<in> set ts. ti_name ti = n \<and> P (ti_ddl ti))" for n P
  proof
    assume "\<exists>st \<in> set stmts. stmt_table_name st = Some n \<and> P st"
    then obtain st where st: "st \<in> set stmts" "stmt_table_name st = Some n" "P st" by blast
    with os cover obtain ti where "ti \<in> set ts" "ti_ddl ti = st" by force
    with wf st show "\<exists>ti \<in> set ts. ti_name ti = n \<and> P (ti_ddl ti)"
      by (auto simp: wf_infos_def)
  next
    assume "\<exists>ti \<in> set ts. ti_name ti = n \<and> P (ti_ddl ti)"
    then obtain ti where ti: "ti \<in> set ts" "ti_name ti = n" "P (ti_ddl ti)" by blast
    with cover have "ti_ddl ti \<in> set stmts" by blast
    with wf ti show "\<exists>st \<in> set stmts. stmt_table_name st = Some n \<and> P st"
      by (auto simp: wf_infos_def)
  qed
  from tab [of _ "\<lambda>_. True"] show names: "info_names ts = stmt_names stmts"
    by (auto simp: info_names_def stmt_names_def)
  have "(n, d) \<in> ddl_edges ts \<longleftrightarrow> (n, d) \<in> stmt_graph stmts" for n d
  proof -
    have "(n, d) \<in> ddl_edges ts \<longleftrightarrow>
          (\<exists>ti \<in> set ts. ti_name ti = n \<and> (d \<in> set (stmt_deps (ti_ddl ti)) \<and> d \<in> stmt_names stmts))"
      using wf names by (auto simp: ddl_edges_def wf_infos_def)
    also have "\<dots> \<longleftrightarrow> (n, d) \<in> stmt_graph stmts"
      using tab [of n "\<lambda>st. d \<in> set (stmt_deps st) \<and> d \<in> stmt_names stmts"]
      by (simp add: stmt_graph_def)
    finally show ?thesis .
  qed
  then show "ddl_edges ts = stmt_graph stmts" by auto
qed

lemma sort_ddl_run:
  "\<exists>ts os s. parse_statements stmts ([], []) = (ts, os) \<and>
     visit_all_tables ts ts ddl_init = Inr s \<and> ddl_inv ts s \<and>
     ddl_visited s = stmt_names stmts \<and>
     (acyclic (stmt_graph stmts) \<longrightarrow> ddl_before ts (sorted_table_statements s)) \<and>
     sort_ddl_statements_by_dependencies stmts = Inr (sorted_table_statements s @ os)"
proof -
  obtain ts os where p: "parse_statements stmts ([], []) = (ts, os)"
    by (cases "parse_statements stmts ([], [])")
  note f = parse_statements_facts [OF p]
  from visit_all_tables_ok [where tis = ts, OF f(1) ddl_inv_init] obtain s where
    s: "visit_all_tables ts ts ddl_init = Inr s" "ddl_inv ts s" "info_names ts \<subseteq> ddl_visited s"
      "acyclic (ddl_edges ts) \<and> ddl_before ts (sorted_table_statements ddl_init) \<longrightarrow>
           ddl_before ts (sorted_table_statements s)"
    by (auto simp: ddl_init_def)
  from s(2) have "ddl_visited s \<subseteq> info_names ts" by (simp add: ddl_inv_def)
  with s(3) f(3) have v: "ddl_visited s = stmt_names stmts" by auto
  from s(4) f(4) have "acyclic (stmt_graph stmts) \<longrightarrow> ddl_before ts (sorted_table_statements s)"
    by (simp add: ddl_init_def ddl_before_Nil)
  with p s(1,2) v show ?thesis by (simp add: sort_ddl_statements_by_dependencies_def)
qed

lemma sort_ddl_acyclic:
  assumes "acyclic (stmt_graph stmts)"
  shows "\<exists>out. sort_ddl_statements_by_dependencies stmts = Inr out \<and>
           (\<forall>i < length out. \<forall>d \<in> set (stmt_deps (out ! i)). d \<in> stmt_names stmts \<longrightarrow>
              (\<exists>j < i. stmt_table_name (out ! j) = Some d))"
proof -
  from sort_ddl_run [of stmts] assms obtain ts os s where
    p: "parse_statements stmts ([], []) = (ts, os)"
    and inv: "ddl_inv ts s" and v: "ddl_visited s = stmt_names stmts"
    and b: "ddl_before ts (sorted_table_statements s)"
    and r: "sort_ddl_statements_by_dependencies stmts = Inr (sorted_table_statements s @ os)"
    by blast
  note f = parse_statements_facts [OF p]
  let ?L = "sorted_table_statements s"
  have "\<exists>j < i. stmt_table_name ((?L @ os) ! j) = Some d"
    if i: "i < length (?L @ os)" and d: "d \<in> set (stmt_deps ((?L @ os) ! i))"
      and n: "d \<in> stmt_names stmts" for i d
  proof (cases "i < length ?L")
    case True
    with d have "d \<in> set (stmt_deps (?L ! i))" by (simp add: nth_append)
    with b True n f(3) obtain j where "j < i" "stmt_table_name (?L ! j) = Some d"
      unfolding ddl_before_def by blast
    with True show ?thesis by (auto simp: nth_append intro!: exI [of _ j])
  next
    case False
    from n v inv have "Some d \<in> set (map stmt_table_name ?L)" by (simp add: ddl_inv_def)
    then obtain j where "j < length ?L" "stmt_table_name (?L ! j) = Some d"
      by (auto simp: in_set_conv_nth)
    with False show ?thesis by (auto simp: nth_append intro!: exI [of _ j])
  qed
  with r show ?thesis by auto
qed

lemma sort_ddl_once:
  "\<exists>out. sort_ddl_statements_by_dependencies stmts = Inr out \<and>
         (\<forall>n \<in> stmt_names stmts. length (filter (\<lambda>st. stmt_table_name st = Some n) out) = 1)"
proof -
  from sort_ddl_run [of stmts] obtain ts os s where
    p: "parse_statements stmts ([], []) = (ts, os)"
    and inv: "ddl_inv ts s" and v: "ddl_visited s = stmt_names stmts"
    and r: "sort_ddl_statements_by_dependencies stmts = Inr (sorted_table_statements s @ os)"
    by blast
  note f = parse_statements_facts [OF p]
  let ?L = "sorted_table_statements s"
  have "length (filter (\<lambda>st. stmt_table_name st = Some n) (?L @ os)) = 1"
    if "n \<in> stmt_names stmts" for n
  proof -
    from that v inv have m: "Some n \<in> set (map stmt_table_name ?L)"
      and d: "distinct (map stmt_table_name ?L)"
      by (simp_all add: ddl_inv_def)
    from f(2) have "filter (\<lambda>st. stmt_table_name st = Some n) os = []"
      by (auto simp: filter_empty_conv)
    then have "length (filter (\<lambda>st. stmt_table_name st = Some n) (?L @ os)) =
          length (filter (\<lambda>x. x = Some n) (map stmt_table_name ?L))"
      by (simp add: filter_map comp_def)
    also from d have "\<dots> = card ({x. x = Some n} \<inter> set (map stmt_table_name ?L))"
      by (rule distinct_length_filter)
    also from m have "{x. x = Some n} \<inter> set (map stmt_table_name ?L) = {Some n}" by auto
    finally show ?thesis by simp
  qed
  with r show ?thesis by simp
qed

subsection \<open>The scenarios of the specification, and inputs near them\<close>

definition orders_ddl :: string where
  "orders_ddl = ''CREATE TABLE orders (id SERIAL PRIMARY KEY, customer_id INTEGER NOT NULL, FOREIGN KEY (customer_id) REFERENCES customers(id))''"

definition customers_ddl :: string where
  "customers_ddl = ''CREATE TABLE customers (id SERIAL PRIMARY KEY, name VARCHAR(120) NOT NULL)''"

definition a_ddl :: string where
  "a_ddl = ''CREATE TABLE a (id INT, b_id INT, FOREIGN KEY (b_id) REFERENCES b(id))''"

definition b_ddl :: string where
  "b_ddl = ''CREATE TABLE b (id INT, a_id INT, FOREIGN KEY (a_id) REFERENCES a(id))''"

definition mixed_orders_ddl :: string where
  "mixed_orders_ddl = ''CREATE TABLE Orders (id INT, customer_id INT, FOREIGN KEY (customer_id) REFERENCES Customers(id))''"

definition mixed_customers_ddl :: string where
  "mixed_customers_ddl = ''CREATE TABLE Customers (id INT)''"

definition inline_orders_ddl :: string where
  "inline_orders_ddl = ''CREATE TABLE orders (id INT, customer_id INT REFERENCES customers(id))''"

definition order_items_ddl :: string where
  "order_items_ddl = ''CREATE TABLE order_items (id INT, FOREIGN KEY (order_id) REFERENCES orders(id), FOREIGN KEY (product_id) REFERENCES products(id))''"

definition products_ddl :: string where
  "products_ddl = ''CREATE TABLE products (id INT)''"

lemma orders_customers_tables:
  "sort_tables_by_dependencies [tbl ''orders'' orders_ddl, tbl ''customers'' customers_ddl] =
   Inr [\<lparr>name = Some ''customers'', ddl = Some customers_ddl\<rparr>,
        \<lparr>name = Some ''orders'', ddl = Some orders_ddl\<rparr>]"
  by code_simp

lemma orders_customers_statements:
  "sort_ddl_statements_by_dependencies [orders_ddl, customers_ddl] = Inr [customers_ddl, orders_ddl]"
  by code_simp

lemma cycle_tables:
  "sort_tables_by_dependencies [tbl ''a'' a_ddl, tbl ''b'' b_ddl] =
   Inr [\<lparr>name = Some ''b'', ddl = Some b_ddl\<rparr>, \<lparr>name = Some ''a'', ddl = Some a_ddl\<rparr>]"
  by code_simp

lemma cycle_statements:
  "sort_ddl_statements_by_dependencies [a_ddl, b_ddl] = Inr [b_ddl, a_ddl]"
  by code_simp

lemma order_items_deps: "table_fk_deps order_items_ddl = [''orders'', ''products'']"
  by code_simp

lemma order_items_tables:
  "sort_tables_by_dependencies
     [tbl ''order_items'' order_items_ddl, tbl ''orders'' orders_ddl,
      tbl ''products'' products_ddl, tbl ''customers'' customers_ddl] =
   Inr [\<lparr>name = Some ''customers'', ddl = Some customers_ddl\<rparr>,
        \<lparr>name = Some ''orders'', ddl = Some orders_ddl\<rparr>,
        \<lparr>name = Some ''products'', ddl = Some products_ddl\<rparr>,
        \<lparr>name = Some ''order_items'', ddl = Some order_items_ddl\<rparr>]"
  by code_simp

lemma mixed_case_deps:
  "table_fk_deps mixed_orders_ddl = [''customers'']"
  "stmt_deps mixed_orders_ddl = [''customers'']"
  "stmt_table_name mixed_customers_ddl = Some ''customers''"
  by code_simp+

lemma mixed_case_tables:
  "sort_tables_by_dependencies [tbl ''Orders'' mixed_orders_ddl, tbl ''Customers'' mixed_customers_ddl] =
   Inr [\<lparr>name = Some ''Orders'', ddl = Some mixed_orders_ddl\<rparr>,
        \<lparr>name = Some ''Customers'', ddl = Some mixed_customers_ddl\<rparr>]"
  by code_simp

lemma mixed_case_statements:
  "sort_ddl_statements_by_dependencies [mixed_orders_ddl, mixed_customers_ddl] =
   Inr [mixed_customers_ddl, mixed_orders_ddl]"
  by code_simp

lemma inline_deps:
  "table_fk_deps inline_orders_ddl = []"
  "stmt_deps inline_orders_ddl = [''customers'']"
  by code_simp+

lemma inline_tables:
  "sort_tables_by_dependencies [tbl ''orders'' inline_orders_ddl, tbl ''customers'' customers_ddl] =
   Inr [\<lparr>name = Some ''orders'', ddl = Some inline_orders_ddl\<rparr>,
        \<lparr>name = Some ''customers'', ddl = Some customers_ddl\<rparr>]"
  by code_simp

lemma inline_statements:
  "sort_ddl_statements_by_dependencies [inline_orders_ddl, customers_ddl] =
   Inr [customers_ddl, inline_orders_ddl]"
  by code_simp

lemma cycle_names:
  "input_names [tbl ''a'' a_ddl, tbl ''b'' b_ddl] = {''a'', ''b''}"
  by (simp add: input_names_def tbl_def)

lemma cycle_stmt_facts:
  "stmt_table_name a_ddl = Some ''a''" "stmt_table_name b_ddl = Some ''b''"
  "stmt_deps a_ddl = [''b'']" "stmt_deps b_ddl = [''a'']"
  by code_simp+

lemma cycle_collect:
  "collect_tables [tbl ''a'' a_ddl, tbl ''b'' b_ddl] ([], []) =
   ([(''a'', \<lparr>name = Some ''a'', ddl = Some a_ddl\<rparr>),
     (''b'', \<lparr>name = Some ''b'', ddl = Some b_ddl\<rparr>)],
    [(''a'', [''b'']), (''b'', [''a''])])"
  by code_simp


text \<open>
  Claim C1 does not hold of \<open>sort_tables_by_dependencies\<close>, the sequencer that the
  extraction of statements calls. It reads the foreign keys off the lowered DDL and looks
  them up among the table names as they were given, and it reads only a reference that
  follows the words \<open>FOREIGN KEY\<close>. So \<open>Orders\<close>, with a foreign key to
  \<open>Customers\<close>, is emitted before \<open>Customers\<close>: the name read is
  \<open>customers\<close>, which is no key of \<open>table_map\<close>. And \<open>orders\<close>, whose
  column \<open>customer_id\<close> carries \<open>REFERENCES customers(id)\<close>, is emitted before
  \<open>customers\<close>: no dependency is read at all. The sequencer of statements,
  \<open>sort_ddl_statements_by_dependencies\<close>, lowers both the names and the references
  and reads every \<open>REFERENCES\<close>; on the same two inputs it emits the referenced table
  first. The scenario of the specification, in lower case and with a \<open>FOREIGN KEY\<close>
  clause, is sequenced as the claim says.
\<close>

theorem dependency_sequencer_misses_references:
  "sort_tables_by_dependencies
     [tbl ''Orders'' mixed_orders_ddl, tbl ''Customers'' mixed_customers_ddl] =
     Inr [\<lparr>name = Some ''Orders'', ddl = Some mixed_orders_ddl\<rparr>,
          \<lparr>name = Some ''Customers'', ddl = Some mixed_customers_ddl\<rparr>] \<and>
   table_fk_deps mixed_orders_ddl = [''customers''] \<and>
   sort_ddl_statements_by_dependencies [mixed_orders_ddl, mixed_customers_ddl] =
     Inr [mixed_customers_ddl, mixed_orders_ddl] \<and>
   sort_tables_by_dependencies
     [tbl ''orders'' inline_orders_ddl, tbl ''customers'' customers_ddl] =
     Inr [\<lparr>name = Some ''orders'', ddl = Some inline_orders_ddl\<rparr>,
          \<lparr>name = Some ''customers'', ddl = Some customers_ddl\<rparr>] \<and>
   table_fk_deps inline_orders_ddl = [] \<and>
   stmt_deps inline_orders_ddl = [''customers''] \<and>
   sort_ddl_statements_by_dependencies [inline_orders_ddl, customers_ddl] =
     Inr [customers_ddl, inline_orders_ddl] \<and>
   sort_tables_by_dependencies [tbl ''orders'' orders_ddl, tbl ''customers'' customers_ddl] =
     Inr [\<lparr>name = Some ''customers'', ddl = Some customers_ddl\<rparr>,
          \<lparr>name = Some ''orders'', ddl = Some orders_ddl\<rparr>]"
  using mixed_case_tables mixed_case_deps(1) mixed_case_statements
    inline_tables inline_deps inline_statements orders_customers_tables
  by blast

text \<open>
  Claim C7. On every input, and so on one whose derived dependency graph has a cycle, the
  depth-first visit terminates, no error is raised, and every table of the input is in the
  output exactly once. With \<open>a\<close> depending on \<open>b\<close> and \<open>b\<close> on \<open>a\<close>, both
  sequencers emit \<open>b\<close>, then \<open>a\<close>.
\<close>

theorem dependency_sequencer_cycle_tolerance:
  "(\<exists>out. sort_tables_by_dependencies tables = Inr out \<and>
      (\<forall>n \<in> input_names tables. length (filter (\<lambda>e. name e = Some n) out) = 1)) \<and>
   (\<exists>out. sort_ddl_statements_by_dependencies stmts = Inr out \<and>
      (\<forall>n \<in> stmt_names stmts. length (filter (\<lambda>st. stmt_table_name st = Some n) out) = 1)) \<and>
   sort_tables_by_dependencies [tbl ''a'' a_ddl, tbl ''b'' b_ddl] =
     Inr [\<lparr>name = Some ''b'', ddl = Some b_ddl\<rparr>, \<lparr>name = Some ''a'', ddl = Some a_ddl\<rparr>] \<and>
   sort_ddl_statements_by_dependencies [a_ddl, b_ddl] = Inr [b_ddl, a_ddl]"
  using sort_tables_once [of tables] sort_ddl_once [of stmts] cycle_tables cycle_statements
  by blast

text \<open>The theorem at the input with the cycle between \<open>a\<close> and \<open>b\<close>.\<close>

theorem dependency_sequencer_cycle_tolerance_witness:
  "(''a'', ''b'') \<in> derived_graph [tbl ''a'' a_ddl, tbl ''b'' b_ddl] \<and>
   (''b'', ''a'') \<in> derived_graph [tbl ''a'' a_ddl, tbl ''b'' b_ddl] \<and>
   (''a'', ''b'') \<in> stmt_graph [a_ddl, b_ddl] \<and>
   (''b'', ''a'') \<in> stmt_graph [a_ddl, b_ddl] \<and>
   (\<exists>out. sort_tables_by_dependencies [tbl ''a'' a_ddl, tbl ''b'' b_ddl] = Inr out \<and>
      length (filter (\<lambda>e. name e = Some ''a'') out) = 1 \<and>
      length (filter (\<lambda>e. name e = Some ''b'') out) = 1) \<and>
   (\<exists>out. sort_ddl_statements_by_dependencies [a_ddl, b_ddl] = Inr out \<and>
      length (filter (\<lambda>st. stmt_table_name st = Some ''a'') out) = 1 \<and>
      length (filter (\<lambda>st. stmt_table_name st = Some ''b'') out) = 1)"
proof -
  have g1: "derived_graph [tbl ''a'' a_ddl, tbl ''b'' b_ddl] = {(''a'', ''b''), (''b'', ''a'')}"
    unfolding derived_graph_def cycle_collect
    by (auto simp: dep_edges_def dict_get_def dict_contains_def dict_keys_def split: if_splits)
  have g2: "stmt_graph [a_ddl, b_ddl] = {(''a'', ''b''), (''b'', ''a'')}"
    by (auto simp: stmt_graph_def stmt_names_def cycle_stmt_facts)
  have n2: "stmt_names [a_ddl, b_ddl] = {''a'', ''b''}"
    by (auto simp: stmt_names_def cycle_stmt_facts)
  from dependency_sequencer_cycle_tolerance [of "[tbl ''a'' a_ddl, tbl ''b'' b_ddl]" "[a_ddl, b_ddl]"]
  show ?thesis unfolding g1 g2 n2 cycle_names by blast
qed

section \<open>Statement reassembly and extraction\<close>

text \<open>
  An element of a flat list of DDL fragments: a string, or anything else (which the
  reassembler skips).
\<close>

datatype ddl_item = StrItem string | NonStr

record reasm_state =
  statements :: "string list"
  current_statement :: string
  in_create_table :: bool
  paren_depth :: int

definition reasm_init :: reasm_state where
  "reasm_init = \<lparr>statements = [], current_statement = [], in_create_table = False, paren_depth = 0\<rparr>"

text \<open>The body of the loop of \<open>reassemble_ai_ddl_statements\<close>, for one item.\<close>

fun reasm_step :: "reasm_state \<Rightarrow> ddl_item \<Rightarrow> reasm_state" where
  "reasm_step r NonStr = r"
| "reasm_step r (StrItem item) =
     (let line = py_strip item in
      if line = [] \<or> line = '';'' then
        (if py_strip (current_statement r) \<noteq> []
         then r\<lparr>statements := statements r @ [py_strip (current_statement r)],
                current_statement := [], in_create_table := False, paren_depth := 0\<rparr>
         else r)
      else if py_startswith (py_upper line) ''CREATE TABLE'' then
        r\<lparr>in_create_table := True,
          paren_depth := py_count line CHR ''('' - py_count line CHR '')'',
          current_statement := line\<rparr>
      else if in_create_table r then
        (let r1 = r\<lparr>current_statement := current_statement r @ '' '' @ line,
                     paren_depth := paren_depth r + (py_count line CHR ''('' - py_count line CHR '')'')\<rparr>
         in if paren_depth r1 \<le> 0 then r1\<lparr>in_create_table := False\<rparr> else r1)
      else
        (let r1 = (if py_strip (current_statement r) \<noteq> []
                   then r\<lparr>statements := statements r @ [py_strip (current_statement r)],
                          current_statement := []\<rparr>
                   else r)
         in r1\<lparr>current_statement := line\<rparr>))"

text \<open>
  \<open>reassemble_ai_ddl_statements\<close> on a list; the function returns the empty list for
  an argument that is not a list, which the type leaves out.
\<close>

definition reassemble_ai_ddl_statements :: "ddl_item list \<Rightarrow> string list" where
  "reassemble_ai_ddl_statements ddl_list =
     (let r = foldl reasm_step reasm_init ddl_list in
      if py_strip (current_statement r) \<noteq> []
      then statements r @ [py_strip (current_statement r)]
      else statements r)"

text \<open>
  The shapes of \<open>ddl_data\<close>: a dict (a key is \<open>None\<close> when it is absent or its value
  is not a list), a list, a string, or anything else.
\<close>

datatype ddl_data =
    DdlDict "string \<Rightarrow> item list option"
  | DdlList "ddl_item list"
  | DdlStr string
  | DdlOther

text \<open>The cleaning of the \<open>ddl\<close> of a record: strip, drop one final semicolon, strip.\<close>

definition clean_ddl :: "string \<Rightarrow> string" where
  "clean_ddl d =
     (let ddl1 = py_strip d;
          ddl2 = (if py_endswith ddl1 '';'' then py_strip (butlast ddl1) else ddl1)
      in py_rstrip ddl2)"

fun item_statements :: "item list \<Rightarrow> string list" where
  "item_statements [] = []"
| "item_statements (NonDict # rest) = item_statements rest"
| "item_statements (Dict e # rest) =
     (case ddl e of
        None \<Rightarrow> item_statements rest
      | Some d \<Rightarrow> (if clean_ddl d \<noteq> [] then clean_ddl d # item_statements rest
                   else item_statements rest))"

definition other_keys :: "string list" where
  "other_keys = [''indexes'', ''constraints'', ''views'', ''triggers'', ''procedures'', ''functions'']"

fun key_statements :: "(string \<Rightarrow> item list option) \<Rightarrow> string list \<Rightarrow> string list" where
  "key_statements ddl_data [] = []"
| "key_statements ddl_data (key # keys) =
     (case ddl_data key of
        None \<Rightarrow> key_statements ddl_data keys
      | Some items \<Rightarrow> item_statements items @ key_statements ddl_data keys)"

fun split_statements :: "string list \<Rightarrow> string list" where
  "split_statements [] = []"
| "split_statements (part # parts) =
     (if py_strip part \<noteq> [] then py_strip part # split_statements parts
      else split_statements parts)"

definition extract_ddl_statements :: "ddl_data \<Rightarrow> py_error + string list" where
  "extract_ddl_statements ddl_data =
     (case ddl_data of
        DdlDict d \<Rightarrow>
          (case d ''tables'' of
             None \<Rightarrow> Inr (key_statements d other_keys)
           | Some tables \<Rightarrow>
               (case sort_tables_by_dependencies tables of
                  Inl e \<Rightarrow> Inl e
                | Inr sorted_tbls \<Rightarrow>
                    Inr (item_statements (map Dict sorted_tbls) @ key_statements d other_keys)))
      | DdlList ddl_list \<Rightarrow> Inr (reassemble_ai_ddl_statements ddl_list)
      | DdlStr s \<Rightarrow> Inr (split_statements (py_split s CHR '';''))
      | DdlOther \<Rightarrow> Inr [])"

subsection \<open>The shapes of one statement\<close>

text \<open>The stripped fragments, joined by single spaces.\<close>

fun join_fragments :: "string \<Rightarrow> string list \<Rightarrow> string" where
  "join_fragments acc [] = acc"
| "join_fragments acc (g # rest) = join_fragments (acc @ '' '' @ py_strip g) rest"

text \<open>The parenthesis depth that a fragment adds.\<close>

definition fragment_depth :: "string \<Rightarrow> int" where
  "fragment_depth g = py_count (py_strip g) CHR ''('' - py_count (py_strip g) CHR '')''"

definition continuation :: "string \<Rightarrow> bool" where
  "continuation g =
     (py_strip g \<noteq> [] \<and> py_strip g \<noteq> '';'' \<and>
      \<not> py_startswith (py_upper (py_strip g)) ''CREATE TABLE'')"

lemma reasm_continue:
  "statements r = [] \<Longrightarrow> (rest \<noteq> [] \<longrightarrow> in_create_table r) \<Longrightarrow>
   \<forall>g \<in> set rest. continuation g \<Longrightarrow>
   \<forall>k < length rest. 0 < k \<longrightarrow> 0 < paren_depth r + sum_list (map fragment_depth (take k rest)) \<Longrightarrow>
   statements (foldl reasm_step r (map StrItem rest)) = [] \<and>
   current_statement (foldl reasm_step r (map StrItem rest)) =
     join_fragments (current_statement r) rest"
proof (induction rest arbitrary: r)
  case Nil
  then show ?case by simp
next
  case (Cons g rest)
  let ?line = "py_strip g"
  let ?r1 = "r\<lparr>current_statement := current_statement r @ '' '' @ ?line,
                paren_depth := paren_depth r + (py_count ?line CHR ''('' - py_count ?line CHR '')'')\<rparr>"
  let ?r' = "reasm_step r (StrItem g)"
  from Cons.prems(2,3) have step:
    "?r' = (if paren_depth ?r1 \<le> 0 then ?r1\<lparr>in_create_table := False\<rparr> else ?r1)"
    by (simp add: continuation_def Let_def)
  then have st: "statements ?r' = []" and cur: "current_statement ?r' = current_statement r @ '' '' @ ?line"
    and dep: "paren_depth ?r' = paren_depth r + fragment_depth g"
    and inc: "in_create_table ?r' = (0 < paren_depth r + fragment_depth g)"
    using Cons.prems(1,2) by (simp_all add: fragment_depth_def)
  have open_next: "rest \<noteq> [] \<longrightarrow> in_create_table ?r'"
  proof
    assume "rest \<noteq> []"
    then have "1 < length (g # rest)" by (cases rest) simp_all
    with Cons.prems(4) have "0 < paren_depth r + sum_list (map fragment_depth (take 1 (g # rest)))"
      by (metis zero_less_one)
    with inc show "in_create_table ?r'" by simp
  qed
  have depths: "\<forall>k < length rest. 0 < k \<longrightarrow>
      0 < paren_depth ?r' + sum_list (map fragment_depth (take k rest))"
  proof (intro allI impI)
    fix k assume k: "k < length rest" "0 < k"
    then have "Suc k < length (g # rest)" "0 < Suc k" by simp_all
    with Cons.prems(4) have "0 < paren_depth r + sum_list (map fragment_depth (take (Suc k) (g # rest)))"
      by blast
    with dep show "0 < paren_depth ?r' + sum_list (map fragment_depth (take k rest))" by simp
  qed
  from Cons.prems(3) have "\<forall>x \<in> set rest. continuation x" by simp
  from Cons.IH [OF st open_next this depths] cur show ?case by simp
qed

lemma py_strip_fixed:
  "s \<noteq> [] \<Longrightarrow> \<not> is_space (hd s) \<Longrightarrow> \<not> is_space (last s) \<Longrightarrow> py_strip s = s"
proof -
  assume s: "s \<noteq> []" and h: "\<not> is_space (hd s)" and l: "\<not> is_space (last s)"
  from s h have "dropWhile is_space s = s" by (cases s) simp_all
  moreover from s l have "dropWhile is_space (rev s) = rev s"
    by (cases "rev s") (simp_all add: last_rev [symmetric] del: last_rev)
  ultimately show ?thesis by (simp add: py_strip_def py_lstrip_def py_rstrip_def)
qed

lemma py_strip_ends:
  "py_strip s \<noteq> [] \<Longrightarrow> \<not> is_space (hd (py_strip s)) \<and> \<not> is_space (last (py_strip s))"
proof -
  assume ne: "py_strip s \<noteq> []"
  let ?t = "dropWhile is_space s"
  have eq: "py_strip s = rev (dropWhile is_space (rev ?t))"
    by (simp add: py_strip_def py_lstrip_def py_rstrip_def)
  with ne have ne': "dropWhile is_space (rev ?t) \<noteq> []" by simp
  then have l: "\<not> is_space (hd (dropWhile is_space (rev ?t)))" by (rule hd_dropWhile)
  from ne' have "last (py_strip s) = hd (dropWhile is_space (rev ?t))"
    unfolding eq by (simp add: last_rev)
  with l have last: "\<not> is_space (last (py_strip s))" by simp
  from ne' have tne: "?t \<noteq> []" by (metis dropWhile.simps(1) rev.simps(1))
  then have h: "\<not> is_space (hd ?t)" by (rule hd_dropWhile)
  from ne' obtain ys zs where split: "rev ?t = ys @ zs" "zs = dropWhile is_space (rev ?t)" "zs \<noteq> []"
    by (metis takeWhile_dropWhile_id)
  then have "?t = rev zs @ rev ys" by (metis rev_append rev_rev_ident)
  with split(2,3) eq have "hd (py_strip s) = hd ?t" by (simp add: hd_append)
  with h last show ?thesis by simp
qed


lemma join_fragments_ends:
  "acc \<noteq> [] \<Longrightarrow> \<forall>g \<in> set rest. continuation g \<Longrightarrow>
   join_fragments acc rest \<noteq> [] \<and> hd (join_fragments acc rest) = hd acc \<and>
   last (join_fragments acc rest) = (if rest = [] then last acc else last (py_strip (last rest)))"
proof (induction rest arbitrary: acc)
  case Nil
  then show ?case by simp
next
  case (Cons g rest)
  from Cons.prems(2) have g: "py_strip g \<noteq> []" by (simp add: continuation_def)
  let ?acc = "acc @ '' '' @ py_strip g"
  from Cons.prems(2) have "\<forall>x \<in> set rest. continuation x" by simp
  from Cons.IH [of ?acc, OF _ this] Cons.prems(1) g show ?case by simp
qed

lemma reassemble_one_create_table:
  assumes start: "py_startswith (py_upper (py_strip f)) ''CREATE TABLE''"
    and cont: "\<forall>g \<in> set rest. continuation g"
    and depth: "\<forall>k < length rest.
                  0 < fragment_depth f + sum_list (map fragment_depth (take k rest))"
  shows "reassemble_ai_ddl_statements (map StrItem (f # rest)) = [join_fragments (py_strip f) rest]"
proof -
  let ?line = "py_strip f"
  from start have up: "py_upper ?line \<noteq> []" "py_upper ?line \<noteq> '';''"
    by (auto simp: py_startswith_def)
  then have ne: "?line \<noteq> []" and semi: "?line \<noteq> '';''"
    by (auto simp: py_upper_def upper_char_def is_lower_def)
  let ?r0 = "reasm_init\<lparr>in_create_table := True, paren_depth := fragment_depth f,
                         current_statement := ?line\<rparr>"
  from start ne semi have r0: "reasm_step reasm_init (StrItem f) = ?r0"
    by (simp add: fragment_depth_def Let_def)
  have "statements (foldl reasm_step ?r0 (map StrItem rest)) = [] \<and>
        current_statement (foldl reasm_step ?r0 (map StrItem rest)) =
          join_fragments (current_statement ?r0) rest"
    by (rule reasm_continue) (use cont depth in \<open>simp_all add: reasm_init_def\<close>)
  then have st: "statements (foldl reasm_step reasm_init (map StrItem (f # rest))) = []"
    and cur: "current_statement (foldl reasm_step reasm_init (map StrItem (f # rest))) =
              join_fragments ?line rest"
    using r0 by simp_all
  let ?j = "join_fragments ?line rest"
  from join_fragments_ends [OF ne cont] have j: "?j \<noteq> []" "hd ?j = hd ?line"
    "last ?j = (if rest = [] then last ?line else last (py_strip (last rest)))" by simp_all
  from py_strip_ends [OF ne] have e: "\<not> is_space (hd ?line)" "\<not> is_space (last ?line)" by simp_all
  have "\<not> is_space (last ?j)"
  proof (cases "rest = []")
    case True
    with j(3) e(2) show ?thesis by simp
  next
    case False
    then have "last rest \<in> set rest" by simp
    with cont have "py_strip (last rest) \<noteq> []" by (simp add: continuation_def)
    from py_strip_ends [OF this] False j(3) show ?thesis by simp
  qed
  with j(1,2) e(1) have "py_strip ?j = ?j" by (intro py_strip_fixed) simp_all
  with st cur j(1) show ?thesis
    unfolding reassemble_ai_ddl_statements_def Let_def by simp
qed

lemma three_fragments:
  "reassemble_ai_ddl_statements [StrItem ''CREATE TABLE t ('', StrItem ''id INT'', StrItem '');''] =
   [''CREATE TABLE t ( id INT );'']"
  by code_simp

lemma joined_string:
  "extract_ddl_statements (DdlStr ''CREATE TABLE t (id INT);'') = Inr [''CREATE TABLE t (id INT)'']"
  by code_simp

lemma joined_record:
  "extract_ddl_statements
     (DdlDict ((\<lambda>k. None)(''tables'' := Some [tbl ''t'' ''CREATE TABLE t (id INT);'']))) =
   Inr [''CREATE TABLE t (id INT)'']"
  by code_simp

text \<open>
  A \<open>CREATE TABLE\<close> that is complete in one fragment leaves \<open>in_create_table\<close>
  set: a \<open>CREATE TABLE\<close> that follows it replaces it, and any other fragment that
  follows it is appended to it. The fragments of the statements below are outside the
  hypotheses of the amended claim.
\<close>

lemma complete_fragment_replaced:
  "reassemble_ai_ddl_statements [StrItem ''CREATE TABLE a (id INT);'', StrItem ''CREATE TABLE b (id INT);''] =
   [''CREATE TABLE b (id INT);'']"
  by code_simp

lemma complete_fragment_glued:
  "reassemble_ai_ddl_statements [StrItem ''CREATE TABLE t (id INT);'', StrItem ''CREATE INDEX i ON t (id);''] =
   [''CREATE TABLE t (id INT); CREATE INDEX i ON t (id);'']"
  by code_simp

text \<open>A text with its whitespace and its semicolons removed.\<close>

definition squash :: "string \<Rightarrow> string" where
  "squash s = filter (\<lambda>c. \<not> is_space c \<and> c \<noteq> CHR '';'') s"

lemma squash_append: "squash (a @ b) = squash a @ squash b"
  by (simp add: squash_def)

lemma squash_concat: "squash (concat xs) = concat (map squash xs)"
  by (induction xs) (simp_all add: squash_append, simp add: squash_def)

lemma squash_dropWhile: "squash (dropWhile is_space s) = squash s"
  by (induction s) (simp_all add: squash_def)

lemma squash_rev: "squash (rev s) = rev (squash s)"
  by (simp add: squash_def rev_filter)

lemma squash_rstrip: "squash (py_rstrip s) = squash s"
  by (simp add: py_rstrip_def squash_rev squash_dropWhile)

lemma squash_strip: "squash (py_strip s) = squash s"
  by (simp add: py_strip_def py_lstrip_def squash_rstrip squash_dropWhile)

lemma squash_space: "squash (CHR '' '' # s) = squash s"
  by (simp add: squash_def is_space_def)

lemma squash_join: "squash (join_fragments acc rest) = squash acc @ concat (map squash rest)"
  by (induction rest arbitrary: acc) (simp_all add: squash_append squash_space squash_strip)

lemma py_split_not_Nil: "py_split s c \<noteq> []"
  by (induction s) (auto split: list.splits)

lemma squash_py_split: "concat (map squash (py_split s CHR '';'')) = squash s"
proof (induction s)
  case Nil
  show ?case by (simp add: squash_def)
next
  case (Cons x xs)
  show ?case
  proof (cases "x = CHR '';''")
    case True
    with Cons show ?thesis by (simp add: squash_def)
  next
    case False
    obtain p ps where p: "py_split xs CHR '';'' = p # ps"
      using py_split_not_Nil [of xs "CHR '';''"] by (cases "py_split xs CHR '';''") auto
    with Cons have "squash p @ concat (map squash ps) = squash xs" by simp
    then have "squash (x # p) @ concat (map squash ps) = squash (x # xs)"
      by (simp add: squash_def)
    with False p show ?thesis by simp
  qed
qed

lemma squash_split_statements:
  "concat (map squash (split_statements parts)) = concat (map squash parts)"
proof (induction parts)
  case Nil
  show ?case by simp
next
  case (Cons part parts)
  show ?case
  proof (cases "py_strip part = []")
    case True
    then have "squash (py_strip part) = []" by (simp add: squash_def)
    then have "squash part = []" by (simp add: squash_strip)
    with True Cons show ?thesis by simp
  next
    case False
    with Cons show ?thesis by (simp add: squash_strip)
  qed
qed

lemma split_path_squash:
  "\<exists>parts. extract_ddl_statements (DdlStr s) = Inr parts \<and> squash (concat parts) = squash s"
  by (simp add: extract_ddl_statements_def squash_concat squash_split_statements squash_py_split)

lemma py_split_append:
  "c \<notin> set a \<Longrightarrow> py_split (a @ c # b) c = a # py_split b c"
  by (induction a) auto

lemma py_split_none: "c \<notin> set a \<Longrightarrow> py_split a c = [a]"
  by (induction a) auto

lemma py_strip_Nil: "py_strip [] = []"
  by (simp add: py_strip_def py_lstrip_def py_rstrip_def)

lemma squash_nonempty_strip: "squash s \<noteq> [] \<Longrightarrow> py_strip s \<noteq> []"
  using squash_strip [of s] by (auto simp: squash_def)

lemma split_path_single:
  assumes "CHR '';'' \<notin> set body" and "squash body \<noteq> []"
  shows "extract_ddl_statements (DdlStr (body @ '';'')) = Inr [py_strip body]"
proof -
  from assms(1) have "py_split (body @ '';'') CHR '';'' = [body, []]"
    using py_split_append [of "CHR '';''" body "[]"] by simp
  with squash_nonempty_strip [OF assms(2)] show ?thesis
    by (simp add: extract_ddl_statements_def py_strip_Nil)
qed

lemma start_squash_nonempty:
  assumes "py_startswith (py_upper (py_strip f)) ''CREATE TABLE''"
  shows "squash f \<noteq> []"
proof -
  from assms obtain c cs where u: "py_upper (py_strip f) = CHR ''C'' # cs"
    by (cases "py_upper (py_strip f)") (auto simp: py_startswith_def)
  then obtain x xs where x: "py_strip f = x # xs" "upper_char x = CHR ''C''"
    by (cases "py_strip f") (auto simp: py_upper_def)
  have "\<not> is_space x \<and> x \<noteq> CHR '';''"
  proof (cases "is_lower x")
    case True
    then show ?thesis by (auto simp: is_lower_def is_space_def)
  next
    case False
    with x(2) have "x = CHR ''C''" by (simp add: upper_char_def)
    then show ?thesis by (simp add: is_space_def)
  qed
  with x(1) have "squash (py_strip f) \<noteq> []" by (simp add: squash_def)
  then show ?thesis by (simp add: squash_strip)
qed


lemma squash_butlast_semicolon: "py_endswith x '';'' \<Longrightarrow> squash (butlast x) = squash x"
proof -
  assume e: "py_endswith x '';''"
  then have "x \<noteq> []" by (auto simp: py_endswith_def)
  moreover from e have "last x = CHR '';''"
    by (cases x rule: rev_cases) (auto simp: py_endswith_def)
  ultimately have "x = butlast x @ '';''" by (metis append_butlast_last_id)
  then have "squash x = squash (butlast x @ '';'')" by simp
  then show ?thesis by (simp add: squash_def)
qed

lemma squash_clean_ddl: "squash (clean_ddl d) = squash d"
  by (simp add: clean_ddl_def Let_def squash_rstrip squash_strip squash_butlast_semicolon)

lemma sort_single_table:
  "sort_tables_by_dependencies [tbl n d] = Inr [\<lparr>name = Some n, ddl = Some d\<rparr>]"
proof -
  have "distinct (map name (valid_entries [tbl n d]))" by (simp add: tbl_def)
  from sort_tables_mset [OF this] obtain out where
    o: "sort_tables_by_dependencies [tbl n d] = Inr out"
       "mset out = mset (valid_entries [tbl n d])" by blast
  from o(2) have "mset out = {#\<lparr>name = Some n, ddl = Some d\<rparr>#}" by (simp add: tbl_def)
  then have "out = [\<lparr>name = Some n, ddl = Some d\<rparr>]" by (cases out) auto
  with o(1) show ?thesis by simp
qed

lemma record_path_squash:
  assumes "squash d \<noteq> []"
  shows "extract_ddl_statements (DdlDict ((\<lambda>k. None)(''tables'' := Some [tbl n d]))) =
           Inr [clean_ddl d] \<and> squash (clean_ddl d) = squash d"
proof -
  from assms have "squash (clean_ddl d) \<noteq> []" by (simp add: squash_clean_ddl)
  then have ne: "clean_ddl d \<noteq> []" by (auto simp: squash_def)
  have keys: "key_statements ((\<lambda>k. None)(''tables'' := Some [tbl n d])) other_keys = []"
    by (simp add: other_keys_def)
  from ne keys show ?thesis
    by (simp add: extract_ddl_statements_def sort_single_table squash_clean_ddl)
qed


lemma squash_fragments:
  "squash (join_fragments (py_strip f) rest) = squash (concat (f # rest))"
  by (simp add: squash_join squash_strip squash_concat squash_append)

text \<open>
  Claim C2, as stated: the three fragments and the joined string give the same statement.
  They do not: the reassembler joins the fragments with spaces and keeps the semicolon,
  the split on \<open>;\<close> drops it.
\<close>

theorem shape_equivalence_counterexample:
  "Inr (reassemble_ai_ddl_statements
          [StrItem ''CREATE TABLE t ('', StrItem ''id INT'', StrItem '');'']) \<noteq>
   extract_ddl_statements (DdlStr ''CREATE TABLE t (id INT);'')"
  unfolding three_fragments joined_string by simp

text \<open>
  Claim C2, amended. Take the fragments of one \<open>CREATE TABLE\<close> statement: the first
  starts with \<open>CREATE TABLE\<close>, no later one is blank, a lone semicolon or the start of
  another \<open>CREATE TABLE\<close>, and a parenthesis is still open before each later fragment.
  The reassembler makes exactly one statement of them, the stripped fragments joined by
  single spaces. The split on \<open>;\<close> of the concatenated fragments, and the record whose
  DDL is the concatenated fragments, give the same text as that statement once whitespace
  and semicolons are removed, whatever the fragments are; and when the concatenation has
  no semicolon but a last one, the split gives exactly one statement too. For the three
  fragments \<open>CREATE TABLE t (\<close>, \<open>id INT\<close>, \<open>);\<close> the reassembler gives
  \<open>CREATE TABLE t ( id INT );\<close> and the two other shapes give
  \<open>CREATE TABLE t (id INT)\<close>.
\<close>

theorem shape_equivalence_amended:
  "(py_startswith (py_upper (py_strip f)) ''CREATE TABLE'' \<and>
    (\<forall>g \<in> set rest. continuation g) \<and>
    (\<forall>k < length rest. 0 < fragment_depth f + sum_list (map fragment_depth (take k rest))) \<longrightarrow>
    reassemble_ai_ddl_statements (map StrItem (f # rest)) = [join_fragments (py_strip f) rest]) \<and>
   (\<exists>parts. extract_ddl_statements (DdlStr (concat (f # rest))) = Inr parts \<and>
      squash (concat parts) = squash (join_fragments (py_strip f) rest)) \<and>
   (py_startswith (py_upper (py_strip f)) ''CREATE TABLE'' \<and>
    CHR '';'' \<notin> set body \<and> concat (f # rest) = body @ '';'' \<longrightarrow>
    extract_ddl_statements (DdlStr (concat (f # rest))) = Inr [py_strip body]) \<and>
   (py_startswith (py_upper (py_strip f)) ''CREATE TABLE'' \<longrightarrow>
    extract_ddl_statements
      (DdlDict ((\<lambda>k. None)(''tables'' := Some [tbl n (concat (f # rest))]))) =
      Inr [clean_ddl (concat (f # rest))] \<and>
    squash (clean_ddl (concat (f # rest))) = squash (join_fragments (py_strip f) rest)) \<and>
   reassemble_ai_ddl_statements [StrItem ''CREATE TABLE t ('', StrItem ''id INT'', StrItem '');''] =
     [''CREATE TABLE t ( id INT );''] \<and>
   extract_ddl_statements (DdlStr ''CREATE TABLE t (id INT);'') = Inr [''CREATE TABLE t (id INT)''] \<and>
   extract_ddl_statements
     (DdlDict ((\<lambda>k. None)(''tables'' := Some [tbl ''t'' ''CREATE TABLE t (id INT);'']))) =
     Inr [''CREATE TABLE t (id INT)'']"
proof -
  let ?start = "py_startswith (py_upper (py_strip f)) ''CREATE TABLE''"
  let ?joined = "concat (f # rest)"
  have a: "?start \<and> (\<forall>g \<in> set rest. continuation g) \<and>
      (\<forall>k < length rest. 0 < fragment_depth f + sum_list (map fragment_depth (take k rest))) \<longrightarrow>
      reassemble_ai_ddl_statements (map StrItem (f # rest)) = [join_fragments (py_strip f) rest]"
    using reassemble_one_create_table [of f rest] by blast
  have b: "\<exists>parts. extract_ddl_statements (DdlStr ?joined) = Inr parts \<and>
      squash (concat parts) = squash (join_fragments (py_strip f) rest)"
    using split_path_squash [of ?joined] by (simp only: squash_fragments)
  have ne: "squash ?joined \<noteq> []" if ?start
    using start_squash_nonempty [OF that] by (simp add: squash_append)
  have c: "?start \<and> CHR '';'' \<notin> set body \<and> ?joined = body @ '';'' \<longrightarrow>
      extract_ddl_statements (DdlStr ?joined) = Inr [py_strip body]"
  proof (intro impI, elim conjE)
    assume s: ?start and nb: "CHR '';'' \<notin> set body" and j: "?joined = body @ '';''"
    from ne [OF s] j have "squash (body @ '';'') \<noteq> []" by simp
    then have "squash body \<noteq> []" by (simp add: squash_def)
    from split_path_single [OF nb this] j
    show "extract_ddl_statements (DdlStr ?joined) = Inr [py_strip body]" by simp
  qed
  have d: "?start \<longrightarrow>
      extract_ddl_statements (DdlDict ((\<lambda>k. None)(''tables'' := Some [tbl n ?joined]))) =
        Inr [clean_ddl ?joined] \<and>
      squash (clean_ddl ?joined) = squash (join_fragments (py_strip f) rest)"
    using record_path_squash [OF ne, of n] by (simp only: squash_fragments) blast
  from a b c d three_fragments joined_string joined_record show ?thesis by blast
qed

text \<open>The theorem at the three fragments.\<close>

theorem shape_equivalence_amended_witness:
  "py_startswith (py_upper (py_strip ''CREATE TABLE t ('')) ''CREATE TABLE'' \<and>
   continuation ''id INT'' \<and> continuation '');'' \<and>
   0 < fragment_depth ''CREATE TABLE t ('' \<and>
   0 < fragment_depth ''CREATE TABLE t ('' + fragment_depth ''id INT'' \<and>
   concat [''CREATE TABLE t ('', ''id INT'', '');''] = ''CREATE TABLE t (id INT)'' @ '';'' \<and>
   reassemble_ai_ddl_statements (map StrItem [''CREATE TABLE t ('', ''id INT'', '');'']) =
     [join_fragments (py_strip ''CREATE TABLE t ('') [''id INT'', '');'']] \<and>
   extract_ddl_statements (DdlStr (concat [''CREATE TABLE t ('', ''id INT'', '');''])) =
     Inr [py_strip ''CREATE TABLE t (id INT)''] \<and>
   extract_ddl_statements
     (DdlDict ((\<lambda>k. None)(''tables'' :=
        Some [tbl ''t'' (concat [''CREATE TABLE t ('', ''id INT'', '');''])]))) =
     Inr [clean_ddl (concat [''CREATE TABLE t ('', ''id INT'', '');''])] \<and>
   squash (clean_ddl (concat [''CREATE TABLE t ('', ''id INT'', '');''])) =
     squash (join_fragments (py_strip ''CREATE TABLE t ('') [''id INT'', '');''])"
proof -
  have h1: "py_startswith (py_upper (py_strip ''CREATE TABLE t ('')) ''CREATE TABLE''"
    by code_simp
  have h2: "continuation ''id INT''" "continuation '');''" by code_simp+
  have h3: "0 < fragment_depth ''CREATE TABLE t (''"
    "0 < fragment_depth ''CREATE TABLE t ('' + fragment_depth ''id INT''" by code_simp+
  have h4: "\<forall>k < length [''id INT'', '');''].
      0 < fragment_depth ''CREATE TABLE t ('' +
          sum_list (map fragment_depth (take k [''id INT'', '');'']))"
  proof (intro allI impI)
    fix k :: nat assume "k < length [''id INT'', '');'']"
    then have "k = 0 \<or> k = 1" by auto
    with h3 show "0 < fragment_depth ''CREATE TABLE t ('' +
          sum_list (map fragment_depth (take k [''id INT'', '');'']))" by auto
  qed
  have h5: "CHR '';'' \<notin> set ''CREATE TABLE t (id INT)''" by simp
  have h6: "concat [''CREATE TABLE t ('', ''id INT'', '');''] = ''CREATE TABLE t (id INT)'' @ '';''"
    by simp
  from h1 h2 h4 h5 h6
    shape_equivalence_amended
      [of "''CREATE TABLE t (''" "[''id INT'', '');'']" "''CREATE TABLE t (id INT)''" "''t''"]
  have "reassemble_ai_ddl_statements (map StrItem [''CREATE TABLE t ('', ''id INT'', '');'']) =
     [join_fragments (py_strip ''CREATE TABLE t ('') [''id INT'', '');'']]"
    and "extract_ddl_statements (DdlStr (concat [''CREATE TABLE t ('', ''id INT'', '');''])) =
     Inr [py_strip ''CREATE TABLE t (id INT)'']"
    and "extract_ddl_statements
     (DdlDict ((\<lambda>k. None)(''tables'' :=
        Some [tbl ''t'' (concat [''CREATE TABLE t ('', ''id INT'', '');''])]))) =
     Inr [clean_ddl (concat [''CREATE TABLE t ('', ''id INT'', '');''])]"
    and "squash (clean_ddl (concat [''CREATE TABLE t ('', ''id INT'', '');''])) =
     squash (join_fragments (py_strip ''CREATE TABLE t ('') [''id INT'', '');''])"
    by (simp_all del: concat.simps)
  with h1 h2 h3 h6 show ?thesis by blast
qed

section \<open>Migration Executor: \<open>apply_ddl_to_target\<close>\<close>

text \<open>
  What the target connection is asked to do, in order. The database itself is outside the
  program: \<open>db_execute\<close> says, given what was asked so far, whether a statement
  raises (the message of the exception) or succeeds, and \<open>db_commit\<close> the same for
  \<open>commit()\<close>.
\<close>

datatype db_event = Execute string | Commit | Rollback | CursorClose

record database =
  db_execute :: "db_event list \<Rightarrow> string \<Rightarrow> string option"
  db_commit :: "db_event list \<Rightarrow> string option"

definition cursor_execute :: "database \<Rightarrow> db_event list \<Rightarrow> string \<Rightarrow> db_event list \<times> string option" where
  "cursor_execute db trace stmt = (trace @ [Execute stmt], db_execute db trace stmt)"

text \<open>\<open>str(e)\<close> of an exception.\<close>

fun py_str_error :: "py_error \<Rightarrow> string" where
  "py_str_error (KeyError k) = [CHR 0x27] @ k @ [CHR 0x27]"
| "py_str_error ZeroDivisionError = ''division by zero''"
| "py_str_error (PyException m) = m"

text \<open>
  \<open>re.search(r'create\s+table(?:\s+if\s+not\s+exists)?\s+["\']?(\w+)["\']?', cleaned_statement, re.IGNORECASE)\<close>
\<close>

definition drop_table_pattern :: "rx list" where
  "drop_table_pattern =
     [Lit ''create'', Spaces1, Lit ''table'',
      Opt [Spaces1, Lit ''if'', Spaces1, Lit ''not'', Spaces1, Lit ''exists''],
      Spaces1, OptQuote, WordGroup, OptQuote]"

definition drop_statement :: "string \<Rightarrow> string" where
  "drop_statement table_name = ''DROP TABLE IF EXISTS '' @ [CHR 0x22] @ table_name @ [CHR 0x22] @ '' CASCADE''"

definition is_duplicate_error :: "string \<Rightarrow> bool" where
  "is_duplicate_error stmt_error =
     (py_in ''already exists'' (py_lower stmt_error) \<or> py_in ''duplicate'' (py_lower stmt_error))"

text \<open>The body of the loop over the statements, for a statement that is not blank.\<close>

definition execute_statement ::
  "database \<Rightarrow> db_event list \<Rightarrow> nat \<Rightarrow> string \<Rightarrow> db_event list \<times> (py_error + nat)" where
  "execute_statement db trace executed_count statement =
     (let cleaned_statement = py_rstrip_semi (py_strip statement) in
      case cursor_execute db trace cleaned_statement of
        (log1, None) \<Rightarrow> (log1, Inr (executed_count + 1))
      | (log1, Some stmt_error) \<Rightarrow>
          if is_duplicate_error stmt_error then
            (case rx_search True drop_table_pattern cleaned_statement of
               Some table_name \<Rightarrow>
                 (case cursor_execute db log1 (drop_statement table_name) of
                    (log2, Some drop_error) \<Rightarrow> (log2, Inl (PyException stmt_error))
                  | (log2, None) \<Rightarrow>
                      (case cursor_execute db log2 cleaned_statement of
                         (log3, Some retry_error) \<Rightarrow> (log3, Inl (PyException stmt_error))
                       | (log3, None) \<Rightarrow> (log3, Inr (executed_count + 1))))
             | None \<Rightarrow> (log1, Inr executed_count))
          else (log1, Inl (PyException stmt_error)))"

fun execute_statements ::
  "database \<Rightarrow> db_event list \<Rightarrow> nat \<Rightarrow> string list \<Rightarrow> db_event list \<times> (py_error + nat)" where
  "execute_statements db trace executed_count [] = (trace, Inr executed_count)"
| "execute_statements db trace executed_count (statement # rest) =
     (if statement = [] \<or> py_isspace statement
      then execute_statements db trace executed_count rest
      else (case execute_statement db trace executed_count statement of
              (trace', Inl e) \<Rightarrow> (trace', Inl e)
            | (trace', Inr n) \<Rightarrow> execute_statements db trace' n rest))"

text \<open>
  The argument \<open>ddl_data\<close>: a dict (with the value of its key \<open>"translated_ddl"\<close>
  when it has one, and the dict itself as structured DDL), a string, a list, or anything
  else. \<open>json_loads\<close> is \<open>json.loads\<close>, \<open>None\<close> for a \<open>JSONDecodeError\<close>.
  The message for anything else ends with the name of its type, which is left out.
\<close>

datatype apply_input =
    ApplyDict "ddl_data option" "string \<Rightarrow> item list option"
  | ApplyStr string
  | ApplyList "ddl_item list"
  | ApplyOther

definition gather_statements ::
  "(string \<Rightarrow> ddl_data option) \<Rightarrow> apply_input \<Rightarrow> py_error + string list" where
  "gather_statements json_loads ddl_data =
     (case ddl_data of
        ApplyDict (Some ddl_content) d \<Rightarrow> extract_ddl_statements ddl_content
      | ApplyDict None d \<Rightarrow> extract_ddl_statements (DdlDict d)
      | ApplyStr s \<Rightarrow>
          (case json_loads s of
             Some parsed_data \<Rightarrow> extract_ddl_statements parsed_data
           | None \<Rightarrow> Inr (split_statements (py_split s CHR '';'')))
      | ApplyList l \<Rightarrow> Inr (reassemble_ai_ddl_statements l)
      | ApplyOther \<Rightarrow> Inl (PyException ''Unsupported DDL data type: ''))"

text \<open>The \<open>try\<close> block of \<open>apply_ddl_to_target\<close>.\<close>

definition apply_ddl_try ::
  "(string \<Rightarrow> ddl_data option) \<Rightarrow> database \<Rightarrow> apply_input \<Rightarrow> db_event list \<times> (py_error + bool)" where
  "apply_ddl_try json_loads db ddl_data =
     (case gather_statements json_loads ddl_data of
        Inl e \<Rightarrow> ([], Inl e)
      | Inr ddl_statements \<Rightarrow>
          if ddl_statements = [] then ([], Inl (PyException ''No DDL statements found to execute''))
          else
            (case execute_statements db [] 0 ddl_statements of
               (trace, Inl e) \<Rightarrow> (trace, Inl e)
             | (trace, Inr executed_count) \<Rightarrow>
                 (case db_commit db trace of
                    Some m \<Rightarrow> (trace @ [Commit], Inl (PyException m))
                  | None \<Rightarrow> (trace @ [Commit], Inr True))))"

text \<open>
  \<open>apply_ddl_to_target\<close>: the \<open>except\<close> clause rolls back and raises, the
  \<open>finally\<close> clause closes the cursor. \<open>target_connection\<close> is \<open>None\<close> when
  there is no connection; opening the cursor is taken to succeed, and an exception of
  \<open>rollback()\<close> or \<open>close()\<close> is swallowed by the code.
\<close>

definition apply_ddl_to_target ::
  "(string \<Rightarrow> ddl_data option) \<Rightarrow> database option \<Rightarrow> apply_input \<Rightarrow>
   db_event list \<times> (py_error + bool)" where
  "apply_ddl_to_target json_loads target_connection ddl_data =
     (case target_connection of
        None \<Rightarrow> ([], Inl (PyException ''Target connection is None''))
      | Some db \<Rightarrow>
          (case apply_ddl_try json_loads db ddl_data of
             (trace, Inl e) \<Rightarrow>
               (trace @ [Rollback, CursorClose],
                Inl (PyException (''Failed to apply DDL to target database: '' @ py_str_error e)))
           | (trace, Inr r) \<Rightarrow> (trace @ [CursorClose], Inr r)))"

text \<open>
  Three databases: in the first \<open>CREATE TABLE x (id INT)\<close> fails with "already exists"
  until the table has been dropped; in the second a statement has a syntax error; in the
  third an index exists already.
\<close>

definition table_exists_db :: database where
  "table_exists_db =
     \<lparr>db_execute = (\<lambda>trace stmt.
         if stmt = ''CREATE TABLE x (id INT)'' \<and> Execute (drop_statement ''x'') \<notin> set trace
         then Some ''relation x already exists'' else None),
       db_commit = (\<lambda>trace. None)\<rparr>"

definition syntax_error_db :: database where
  "syntax_error_db =
     \<lparr>db_execute = (\<lambda>trace stmt.
         if stmt = ''CREATE TABLE y ('' then Some ''syntax error at end of input'' else None),
       db_commit = (\<lambda>trace. None)\<rparr>"

definition index_exists_db :: database where
  "index_exists_db =
     \<lparr>db_execute = (\<lambda>trace stmt.
         if stmt = ''CREATE INDEX idx ON t (c)'' then Some ''relation idx already exists'' else None),
       db_commit = (\<lambda>trace. None)\<rparr>"

lemma table_exists_run:
  "apply_ddl_to_target (\<lambda>s. None) (Some table_exists_db) (ApplyStr ''CREATE TABLE x (id INT);'') =
   ([Execute ''CREATE TABLE x (id INT)'', Execute (drop_statement ''x''),
     Execute ''CREATE TABLE x (id INT)'', Commit, CursorClose], Inr True)"
  by code_simp

lemma index_exists_run:
  "apply_ddl_to_target (\<lambda>s. None) (Some index_exists_db)
     (ApplyStr ''CREATE TABLE t (c INT); CREATE INDEX idx ON t (c);'') =
   ([Execute ''CREATE TABLE t (c INT)'', Execute ''CREATE INDEX idx ON t (c)'', Commit, CursorClose],
    Inr True)"
  by code_simp


subsection \<open>The failure policy for a statement\<close>

lemma execute_statement_events:
  "execute_statement db trace n statement = (trace', r) \<Longrightarrow>
   \<exists>es. trace' = trace @ es \<and> (\<forall>e \<in> set es. \<exists>stmt. e = Execute stmt)"
  by (auto simp: execute_statement_def cursor_execute_def Let_def
      split: option.splits if_splits)

lemma execute_statements_events:
  "execute_statements db trace n stmts = (trace', r) \<Longrightarrow>
   \<exists>es. trace' = trace @ es \<and> (\<forall>e \<in> set es. \<exists>stmt. e = Execute stmt)"
proof (induction stmts arbitrary: trace n)
  case Nil
  then show ?case by simp
next
  case (Cons statement rest)
  show ?case
  proof (cases "statement = [] \<or> py_isspace statement")
    case True
    with Cons show ?thesis by simp
  next
    case False
    obtain t1 r1 where one: "execute_statement db trace n statement = (t1, r1)"
      by (cases "execute_statement db trace n statement")
    from execute_statement_events [OF one] obtain es1 where
      es1: "t1 = trace @ es1" "\<forall>e \<in> set es1. \<exists>stmt. e = Execute stmt" by blast
    show ?thesis
    proof (cases r1)
      case (Inl e)
      with False one Cons.prems have "trace' = t1" by simp
      with es1 show ?thesis by blast
    next
      case (Inr m)
      with False one Cons.prems have "execute_statements db t1 m rest = (trace', r)" by simp
      from Cons.IH [OF this] obtain es2 where
        "trace' = t1 @ es2" "\<forall>e \<in> set es2. \<exists>stmt. e = Execute stmt" by blast
      with es1 have "trace' = trace @ (es1 @ es2)" "\<forall>e \<in> set (es1 @ es2). \<exists>stmt. e = Execute stmt"
        by auto
      then show ?thesis by blast
    qed
  qed
qed

lemma statement_failure_aborts:
  assumes "gather_statements json_loads ddl_data = Inr stmts"
    and "execute_statements db [] 0 stmts = (trace, Inl e)"
  shows "apply_ddl_to_target json_loads (Some db) ddl_data =
           (trace @ [Rollback, CursorClose],
            Inl (PyException (''Failed to apply DDL to target database: '' @ py_str_error e)))"
    and "Commit \<notin> set trace"
proof -
  from assms(2) have "stmts \<noteq> []" by auto
  with assms show "apply_ddl_to_target json_loads (Some db) ddl_data =
           (trace @ [Rollback, CursorClose],
            Inl (PyException (''Failed to apply DDL to target database: '' @ py_str_error e)))"
    by (simp add: apply_ddl_to_target_def apply_ddl_try_def)
  from execute_statements_events [OF assms(2)] show "Commit \<notin> set trace" by auto
qed

lemma duplicate_with_table:
  assumes "db_execute db trace (py_rstrip_semi (py_strip statement)) = Some msg"
    and "is_duplicate_error msg"
    and "rx_search True drop_table_pattern (py_rstrip_semi (py_strip statement)) = Some table_name"
  shows "execute_statement db trace n statement =
     (let cleaned = py_rstrip_semi (py_strip statement);
          trace1 = trace @ [Execute cleaned];
          trace2 = trace1 @ [Execute (drop_statement table_name)];
          trace3 = trace2 @ [Execute cleaned]
      in if db_execute db trace1 (drop_statement table_name) \<noteq> None
         then (trace2, Inl (PyException msg))
         else if db_execute db trace2 cleaned \<noteq> None
         then (trace3, Inl (PyException msg))
         else (trace3, Inr (n + 1)))"
  using assms
  by (auto simp: execute_statement_def cursor_execute_def Let_def split: option.splits)

lemma duplicate_without_table:
  assumes "db_execute db trace (py_rstrip_semi (py_strip statement)) = Some msg"
    and "is_duplicate_error msg"
    and "rx_search True drop_table_pattern (py_rstrip_semi (py_strip statement)) = None"
  shows "execute_statement db trace n statement =
           (trace @ [Execute (py_rstrip_semi (py_strip statement))], Inr n)"
  using assms by (simp add: execute_statement_def cursor_execute_def Let_def)

lemma other_failure:
  assumes "db_execute db trace (py_rstrip_semi (py_strip statement)) = Some msg"
    and "\<not> is_duplicate_error msg"
  shows "execute_statement db trace n statement =
           (trace @ [Execute (py_rstrip_semi (py_strip statement))], Inl (PyException msg))"
  using assms by (simp add: execute_statement_def cursor_execute_def Let_def)

text \<open>
  Claim C8, as stated: every statement that fails with "already exists" or "duplicate"
  gets its table dropped and is retried. A statement from which no table name can be
  read is not: \<open>CREATE INDEX idx ON t (c)\<close> fails with "already exists", nothing is
  dropped, the statement is not retried, and the migration goes on and commits.
\<close>

theorem duplicate_policy_counterexample:
  "db_execute index_exists_db [Execute ''CREATE TABLE t (c INT)''] ''CREATE INDEX idx ON t (c)'' =
     Some ''relation idx already exists'' \<and>
   is_duplicate_error ''relation idx already exists'' \<and>
   apply_ddl_to_target (\<lambda>s. None) (Some index_exists_db)
     (ApplyStr ''CREATE TABLE t (c INT); CREATE INDEX idx ON t (c);'') =
   ([Execute ''CREATE TABLE t (c INT)'', Execute ''CREATE INDEX idx ON t (c)'', Commit, CursorClose],
    Inr True)"
proof -
  have "is_duplicate_error ''relation idx already exists''" by code_simp
  with index_exists_run show ?thesis by (simp add: index_exists_db_def)
qed

text \<open>
  Claim C8, amended. When a statement fails with a message that contains "already exists"
  or "duplicate" and a table name can be read off the statement by the pattern
  \<open>create table [if not exists] name\<close>, the executor issues
  \<open>DROP TABLE IF EXISTS "name" CASCADE\<close> and, if that succeeds, the statement once
  more; if the drop or the retry fails, the first error is raised. When no table name can
  be read off, the statement is skipped and the loop goes on. A failure with any other
  message is raised at once. Whenever a statement's error is raised, nothing is committed:
  the target connection is rolled back, the cursor closed, and
  \<open>apply_ddl_to_target\<close> raises. In the scenario of the specification the statement
  \<open>CREATE TABLE x (id INT)\<close> fails, \<open>x\<close> is dropped, and the retry succeeds.
\<close>

theorem duplicate_policy_amended:
  "(db_execute db trace (py_rstrip_semi (py_strip statement)) = Some msg \<and>
    is_duplicate_error msg \<and>
    rx_search True drop_table_pattern (py_rstrip_semi (py_strip statement)) = Some table_name \<longrightarrow>
    execute_statement db trace n statement =
      (let cleaned = py_rstrip_semi (py_strip statement);
           trace1 = trace @ [Execute cleaned];
           trace2 = trace1 @ [Execute (drop_statement table_name)];
           trace3 = trace2 @ [Execute cleaned]
       in if db_execute db trace1 (drop_statement table_name) \<noteq> None
          then (trace2, Inl (PyException msg))
          else if db_execute db trace2 cleaned \<noteq> None
          then (trace3, Inl (PyException msg))
          else (trace3, Inr (n + 1)))) \<and>
   (db_execute db trace (py_rstrip_semi (py_strip statement)) = Some msg \<and>
    is_duplicate_error msg \<and>
    rx_search True drop_table_pattern (py_rstrip_semi (py_strip statement)) = None \<longrightarrow>
    execute_statement db trace n statement =
      (trace @ [Execute (py_rstrip_semi (py_strip statement))], Inr n)) \<and>
   (db_execute db trace (py_rstrip_semi (py_strip statement)) = Some msg \<and>
    \<not> is_duplicate_error msg \<longrightarrow>
    execute_statement db trace n statement =
      (trace @ [Execute (py_rstrip_semi (py_strip statement))], Inl (PyException msg))) \<and>
   (gather_statements json_loads ddl_data = Inr stmts \<and>
    execute_statements db [] 0 stmts = (trace', Inl e) \<longrightarrow>
    apply_ddl_to_target json_loads (Some db) ddl_data =
      (trace' @ [Rollback, CursorClose],
       Inl (PyException (''Failed to apply DDL to target database: '' @ py_str_error e))) \<and>
    Commit \<notin> set trace') \<and>
   apply_ddl_to_target (\<lambda>s. None) (Some table_exists_db) (ApplyStr ''CREATE TABLE x (id INT);'') =
     ([Execute ''CREATE TABLE x (id INT)'', Execute (drop_statement ''x''),
       Execute ''CREATE TABLE x (id INT)'', Commit, CursorClose], Inr True)"
  using duplicate_with_table [of db trace statement msg table_name n]
    duplicate_without_table [of db trace statement msg n]
    other_failure [of db trace statement msg n]
    statement_failure_aborts [of json_loads ddl_data stmts db trace' e]
    table_exists_run
  by blast


text \<open>
  The theorem at the three databases: the table that exists, the index that exists, and
  the statement with a syntax error.
\<close>

theorem duplicate_policy_amended_witness:
  "db_execute table_exists_db [] ''CREATE TABLE x (id INT)'' = Some ''relation x already exists'' \<and>
   is_duplicate_error ''relation x already exists'' \<and>
   rx_search True drop_table_pattern ''CREATE TABLE x (id INT)'' = Some ''x'' \<and>
   execute_statement table_exists_db [] 0 ''CREATE TABLE x (id INT);'' =
     ([Execute ''CREATE TABLE x (id INT)'', Execute (drop_statement ''x''),
       Execute ''CREATE TABLE x (id INT)''], Inr 1) \<and>
   db_execute index_exists_db [] ''CREATE INDEX idx ON t (c)'' = Some ''relation idx already exists'' \<and>
   is_duplicate_error ''relation idx already exists'' \<and>
   rx_search True drop_table_pattern ''CREATE INDEX idx ON t (c)'' = None \<and>
   execute_statement index_exists_db [] 0 ''CREATE INDEX idx ON t (c)'' =
     ([Execute ''CREATE INDEX idx ON t (c)''], Inr 0) \<and>
   db_execute syntax_error_db [] ''CREATE TABLE y ('' = Some ''syntax error at end of input'' \<and>
   \<not> is_duplicate_error ''syntax error at end of input'' \<and>
   execute_statement syntax_error_db [] 0 ''CREATE TABLE y ('' =
     ([Execute ''CREATE TABLE y (''], Inl (PyException ''syntax error at end of input'')) \<and>
   apply_ddl_to_target (\<lambda>s. None) (Some syntax_error_db) (ApplyStr ''CREATE TABLE y ('') =
     ([Execute ''CREATE TABLE y ('', Rollback, CursorClose],
      Inl (PyException ''Failed to apply DDL to target database: syntax error at end of input''))"
proof -
  have c1: "py_rstrip_semi (py_strip ''CREATE TABLE x (id INT);'') = ''CREATE TABLE x (id INT)''"
    and c2: "py_rstrip_semi (py_strip ''CREATE INDEX idx ON t (c)'') = ''CREATE INDEX idx ON t (c)''"
    and c3: "py_rstrip_semi (py_strip ''CREATE TABLE y ('') = ''CREATE TABLE y (''"
    by code_simp+
  have a1: "db_execute table_exists_db [] ''CREATE TABLE x (id INT)'' = Some ''relation x already exists''"
    by (simp add: table_exists_db_def)
  have a2: "is_duplicate_error ''relation x already exists''" by code_simp
  have a3: "rx_search True drop_table_pattern ''CREATE TABLE x (id INT)'' = Some ''x''" by code_simp
  have a4: "db_execute table_exists_db [Execute ''CREATE TABLE x (id INT)''] (drop_statement ''x'') = None"
    by code_simp
  have a5: "db_execute table_exists_db
      [Execute ''CREATE TABLE x (id INT)'', Execute (drop_statement ''x'')] ''CREATE TABLE x (id INT)'' = None"
    by (simp add: table_exists_db_def)
  have b1: "db_execute index_exists_db [] ''CREATE INDEX idx ON t (c)'' = Some ''relation idx already exists''"
    by (simp add: index_exists_db_def)
  have b2: "is_duplicate_error ''relation idx already exists''" by code_simp
  have b3: "rx_search True drop_table_pattern ''CREATE INDEX idx ON t (c)'' = None" by code_simp
  have d1: "db_execute syntax_error_db [] ''CREATE TABLE y ('' = Some ''syntax error at end of input''"
    by (simp add: syntax_error_db_def)
  have d2: "\<not> is_duplicate_error ''syntax error at end of input''" by code_simp
  have d3: "gather_statements (\<lambda>s. None) (ApplyStr ''CREATE TABLE y ('') = Inr [''CREATE TABLE y ('']"
    by code_simp
  have d4: "execute_statements syntax_error_db [] 0 [''CREATE TABLE y (''] =
      ([Execute ''CREATE TABLE y (''], Inl (PyException ''syntax error at end of input''))"
    by code_simp
  from duplicate_policy_amended [of table_exists_db "[]" "''CREATE TABLE x (id INT);''" "''relation x already exists''" "''x''" 0]
    a1 a2 a3 a4 a5
  have r1: "execute_statement table_exists_db [] 0 ''CREATE TABLE x (id INT);'' =
     ([Execute ''CREATE TABLE x (id INT)'', Execute (drop_statement ''x''),
       Execute ''CREATE TABLE x (id INT)''], Inr 1)"
    by (simp add: c1 Let_def)
  from duplicate_policy_amended [of index_exists_db "[]" "''CREATE INDEX idx ON t (c)''" "''relation idx already exists''" _ 0]
    b1 b2 b3
  have r2: "execute_statement index_exists_db [] 0 ''CREATE INDEX idx ON t (c)'' =
     ([Execute ''CREATE INDEX idx ON t (c)''], Inr 0)"
    by (simp add: c2)
  from duplicate_policy_amended [of syntax_error_db "[]" "''CREATE TABLE y (''" "''syntax error at end of input''" _ 0
      "\<lambda>s. None" "ApplyStr ''CREATE TABLE y (''" "[''CREATE TABLE y ('']"
      "[Execute ''CREATE TABLE y ('']" "PyException ''syntax error at end of input''"]
    d1 d2 d3 d4
  have r3: "execute_statement syntax_error_db [] 0 ''CREATE TABLE y ('' =
     ([Execute ''CREATE TABLE y (''], Inl (PyException ''syntax error at end of input''))"
    and r4: "apply_ddl_to_target (\<lambda>s. None) (Some syntax_error_db) (ApplyStr ''CREATE TABLE y ('') =
     ([Execute ''CREATE TABLE y ('', Rollback, CursorClose],
      Inl (PyException ''Failed to apply DDL to target database: syntax error at end of input''))"
    by (simp_all add: c3)
  from a1 a2 a3 r1 b1 b2 b3 r2 d1 d2 r3 r4 show ?thesis by blast
qed

section \<open>Schema Translator: \<open>translate_schema\<close>\<close>













section \<open>Validator: type equivalence\<close>

definition EQUIVALENT_TYPES :: "(string, string) dict" where
  "EQUIVALENT_TYPES =
     [(''int'', ''integer''),
      (''integer'', ''int''),
      (''varchar'', ''character varying''),
      (''character varying'', ''varchar''),
      (''datetime'', ''timestamp without time zone''),
      (''timestamp without time zone'', ''datetime''),
      (''tinyint'', ''smallint''),
      (''smallint'', ''tinyint''),
      (''bigint'', ''bigint''),
      (''decimal'', ''numeric''),
      (''numeric'', ''decimal''),
      (''double'', ''double precision''),
      (''double precision'', ''double'')]"

definition are_equivalent_types :: "string \<Rightarrow> string \<Rightarrow> bool" where
  "are_equivalent_types type1 type2 =
     (let t1 = py_lower (py_strip type1);
          t2 = py_lower (py_strip type2)
      in if t1 = t2 then True
         else if dict_contains EQUIVALENT_TYPES t1 \<and> map_of EQUIVALENT_TYPES t1 = Some t2 then True
         else if dict_contains EQUIVALENT_TYPES t2 \<and> map_of EQUIVALENT_TYPES t2 = Some t1 then True
         else False)"

text \<open>
  Claim C5. \<open>are_equivalent_types\<close> is symmetric for all pairs of strings, and it holds
  of two strings that are the same after stripping and lowering.
\<close>

theorem are_equivalent_types_symmetric_reflexive:
  "are_equivalent_types x y = are_equivalent_types y x \<and>
   (py_lower (py_strip x) = py_lower (py_strip y) \<longrightarrow> are_equivalent_types x y)"
  by (auto simp: are_equivalent_types_def Let_def)

text \<open>The theorem at \<open>"  INT "\<close> and \<open>"int"\<close>, and at \<open>"VARCHAR"\<close> and \<open>"character varying"\<close>.\<close>

theorem are_equivalent_types_symmetric_reflexive_witness:
  "py_lower (py_strip ''  INT '') = py_lower (py_strip ''int'') \<and>
   are_equivalent_types ''  INT '' ''int'' \<and>
   are_equivalent_types ''VARCHAR'' ''character varying'' \<and>
   are_equivalent_types ''character varying'' ''VARCHAR''"
proof -
  have h: "py_lower (py_strip ''  INT '') = py_lower (py_strip ''int'')" by code_simp
  have v: "are_equivalent_types ''VARCHAR'' ''character varying''" by code_simp
  from are_equivalent_types_symmetric_reflexive [of "''  INT ''" "''int''"] h
  have "are_equivalent_types ''  INT '' ''int''" by blast
  moreover from are_equivalent_types_symmetric_reflexive [of "''VARCHAR''" "''character varying''"] v
  have "are_equivalent_types ''character varying'' ''VARCHAR''" by blast
  ultimately show ?thesis using h v by blast
qed

section \<open>Validator: \<open>run_comprehensive_validation\<close>\<close>

datatype finding_status = Pass | Fail | Warning

record finding =
  category :: string
  status :: finding_status
  errorDetails :: "string option"
  suggestedFix :: "string option"
  confidenceScore :: rat

text \<open>
  \<open>validate_connections\<close>. \<open>connect\<close> stands for \<open>connect_to_database\<close>
  followed by \<open>close()\<close>: \<open>None\<close> when both return, the message of the exception
  otherwise.
\<close>

definition validate_connections :: "('c \<Rightarrow> string option) \<Rightarrow> 'c \<Rightarrow> 'c \<Rightarrow> finding list" where
  "validate_connections connect source_conn_info target_conn_info =
     (case connect source_conn_info of
        Some e \<Rightarrow>
          [\<lparr>category = ''Source Connection'', status = Fail, errorDetails = Some e,
            suggestedFix = Some ''Check source database connection settings'',
            confidenceScore = 9 / 10\<rparr>]
      | None \<Rightarrow>
          [\<lparr>category = ''Source Connection'', status = Pass, errorDetails = None,
            suggestedFix = None, confidenceScore = 1\<rparr>] @
          (case connect target_conn_info of
             None \<Rightarrow>
               [\<lparr>category = ''Target Connection'', status = Pass, errorDetails = None,
                 suggestedFix = None, confidenceScore = 1\<rparr>]
           | Some e \<Rightarrow>
               [\<lparr>category = ''Target Connection'', status = Fail, errorDetails = Some e,
                 suggestedFix = Some ''Check target database connection settings'',
                 confidenceScore = 9 / 10\<rparr>]))"

text \<open>
  The world of a validation run: the active session (the ids of its source and target,
  when selected), the connection registry, the connections, and the checks of the later
  phases, each of which returns findings or raises (\<open>Inl\<close>).
\<close>

record 'c validation_env =
  session_source :: "nat option"
  session_target :: "nat option"
  get_connection_by_id :: "nat \<Rightarrow> 'c option"
  connect_to_database :: "'c \<Rightarrow> string option"
  validate_row_counts :: "'c \<Rightarrow> 'c \<Rightarrow> string + finding list"
  validate_table_structure :: "'c \<Rightarrow> 'c \<Rightarrow> string + finding list"
  sample_data_comparison :: "'c \<Rightarrow> 'c \<Rightarrow> string + finding list"
  content_analysis :: "'c \<Rightarrow> 'c \<Rightarrow> string + finding list"
  automated_testing_framework :: "'c \<Rightarrow> 'c \<Rightarrow> string + finding list"
  run_performance_benchmark :: "'c \<Rightarrow> 'c \<Rightarrow> string + finding list"
  create_rollback_checkpoint :: "'c \<Rightarrow> 'c \<Rightarrow> string + finding list"

text \<open>The finding that the \<open>except\<close> clause of the run appends.\<close>

definition process_failure :: "string \<Rightarrow> finding" where
  "process_failure e =
     \<lparr>category = ''Validation Process'', status = Fail, errorDetails = Some e,
      suggestedFix = Some ''Check validation process implementation'',
      confidenceScore = 1 / 2\<rparr>"

text \<open>
  Phases 2 to 9: each sets the percentage, runs its check and extends the results; the
  last one only sets the percentage to 100. The state is the results so far and the
  percentages written so far.
\<close>

fun run_phases ::
  "'c \<Rightarrow> 'c \<Rightarrow> (nat \<times> ('c \<Rightarrow> 'c \<Rightarrow> string + finding list)) list \<Rightarrow>
   finding list \<Rightarrow> nat list \<Rightarrow> finding list \<times> nat list" where
  "run_phases source_conn_info target_conn_info [] results percents = (results, percents @ [100])"
| "run_phases source_conn_info target_conn_info ((percent, check) # rest) results percents =
     (case check source_conn_info target_conn_info of
        Inl e \<Rightarrow> (results @ [process_failure e], percents @ [percent])
      | Inr rs \<Rightarrow>
          run_phases source_conn_info target_conn_info rest (results @ rs) (percents @ [percent]))"

definition later_phases ::
  "'c validation_env \<Rightarrow> (nat \<times> ('c \<Rightarrow> 'c \<Rightarrow> string + finding list)) list" where
  "later_phases env =
     [(15, validate_row_counts env), (30, validate_table_structure env),
      (40, sample_data_comparison env), (50, content_analysis env),
      (70, automated_testing_framework env), (85, run_performance_benchmark env),
      (95, create_rollback_checkpoint env)]"

text \<open>The results of the run, and the percentages it writes to \<open>validation_status\<close>.\<close>

definition run_comprehensive_validation :: "'c validation_env \<Rightarrow> finding list \<times> nat list" where
  "run_comprehensive_validation env =
     (case (session_source env, session_target env) of
        (Some source_id, Some target_id) \<Rightarrow>
          (case (get_connection_by_id env source_id, get_connection_by_id env target_id) of
             (Some source_conn_info, Some target_conn_info) \<Rightarrow>
               (let connection_results =
                      validate_connections (connect_to_database env) source_conn_info target_conn_info
                in if list_ex (\<lambda>result. status result = Fail) connection_results
                   then (connection_results, [5])
                   else run_phases source_conn_info target_conn_info (later_phases env)
                          connection_results [5])
           | _ \<Rightarrow> ([process_failure ''Failed to retrieve connection details''], []))
      | _ \<Rightarrow> ([process_failure ''Source and target connections not set''], []))"

text \<open>
  Claim C4. When the check of the source connection fails, the run produces exactly one
  finding, \<open>Source Connection\<close> with status \<open>Fail\<close>: the target connection is not
  checked and no later phase runs.
\<close>

theorem validation_short_circuit:
  assumes "session_source env = Some source_id" and "session_target env = Some target_id"
    and "get_connection_by_id env source_id = Some source_conn_info"
    and "get_connection_by_id env target_id = Some target_conn_info"
    and "connect_to_database env source_conn_info = Some e"
  shows "fst (run_comprehensive_validation env) =
           [\<lparr>category = ''Source Connection'', status = Fail, errorDetails = Some e,
             suggestedFix = Some ''Check source database connection settings'',
             confidenceScore = 9 / 10\<rparr>] \<and>
         length (fst (run_comprehensive_validation env)) = 1 \<and>
         snd (run_comprehensive_validation env) = [5]"
  using assms by (simp add: run_comprehensive_validation_def validate_connections_def)

text \<open>A run whose source does not answer; every later check would have raised.\<close>

definition unreachable_source_env :: "string validation_env" where
  "unreachable_source_env =
     \<lparr>session_source = Some 1, session_target = Some 2,
      get_connection_by_id = (\<lambda>i. if i = 1 then Some ''source'' else if i = 2 then Some ''target'' else None),
      connect_to_database = (\<lambda>c. if c = ''source'' then Some ''connection refused'' else None),
      validate_row_counts = (\<lambda>s t. Inl ''not reached''),
      validate_table_structure = (\<lambda>s t. Inl ''not reached''),
      sample_data_comparison = (\<lambda>s t. Inl ''not reached''),
      content_analysis = (\<lambda>s t. Inl ''not reached''),
      automated_testing_framework = (\<lambda>s t. Inl ''not reached''),
      run_performance_benchmark = (\<lambda>s t. Inl ''not reached''),
      create_rollback_checkpoint = (\<lambda>s t. Inl ''not reached'')\<rparr>"

theorem validation_short_circuit_witness:
  "connect_to_database unreachable_source_env ''source'' = Some ''connection refused'' \<and>
   fst (run_comprehensive_validation unreachable_source_env) =
     [\<lparr>category = ''Source Connection'', status = Fail, errorDetails = Some ''connection refused'',
       suggestedFix = Some ''Check source database connection settings'',
       confidenceScore = 9 / 10\<rparr>] \<and>
   length (fst (run_comprehensive_validation unreachable_source_env)) = 1"
  using validation_short_circuit [of unreachable_source_env 1 2 "''source''" "''target''" "''connection refused''"]
  by (simp add: unreachable_source_env_def)

section \<open>Schema Extractor: the data profile\<close>

text \<open>
  The cursor on the source database is outside the program. For each query of the profile
  loop it says whether \<open>execute\<close> or \<open>fetch\<close> raises (\<open>Inl\<close>) or what is fetched:
  \<open>fetchone()\<close> gives \<open>None\<close> or the first field of the row, \<open>fetchall()\<close> the
  rows \<open>(column_name, data_type, is_nullable)\<close>.
\<close>

record profile_cursor =
  count_rows :: "string \<Rightarrow> string + int option"
  column_rows :: "string \<Rightarrow> string + (string \<times> string \<times> string) list"
  count_nulls :: "string \<Rightarrow> string \<Rightarrow> string + int option"
  count_distinct :: "string \<Rightarrow> string \<Rightarrow> string + int option"

record column_stat =
  column_name :: string
  data_type :: string
  nullable :: bool
  null_count :: int
  distinct_count :: int
  null_ratio :: rat

record table_profile =
  row_count :: int
  columns :: "column_stat list"

text \<open>
  Python's \<open>a / b\<close> on integers: it raises \<open>ZeroDivisionError\<close> when \<open>b\<close> is 0;
  the quotient, a float in Python, is the exact rational here.
\<close>

definition py_truediv :: "int \<Rightarrow> int \<Rightarrow> py_error + rat" where
  "py_truediv a b = (if b = 0 then Inl ZeroDivisionError else Inr (of_int a / of_int b))"

text \<open>\<open>result[0] if result else 0\<close>.\<close>

definition first_or_zero :: "int option \<Rightarrow> int" where
  "first_or_zero result = (case result of None \<Rightarrow> 0 | Some n \<Rightarrow> n)"

text \<open>The inner \<open>try\<close> block, for one column; \<open>Inl\<close> is an exception that leaves it.\<close>

definition column_stat_try ::
  "profile_cursor \<Rightarrow> string \<Rightarrow> int \<Rightarrow> string \<times> string \<times> string \<Rightarrow> py_error + column_stat" where
  "column_stat_try cursor table rc col_row =
     (case col_row of (cname, dtype, is_nullable) \<Rightarrow>
        (case count_nulls cursor table cname of
           Inl e \<Rightarrow> Inl (PyException e)
         | Inr null_result \<Rightarrow>
             (case count_distinct cursor table cname of
                Inl e \<Rightarrow> Inl (PyException e)
              | Inr distinct_result \<Rightarrow>
                  (case (if rc > 0 then py_truediv (first_or_zero null_result) rc else Inr 0) of
                     Inl e \<Rightarrow> Inl e
                   | Inr ratio \<Rightarrow>
                       Inr \<lparr>column_name = cname, data_type = dtype,
                            nullable = (is_nullable = ''YES''),
                            null_count = first_or_zero null_result,
                            distinct_count = first_or_zero distinct_result,
                            null_ratio = ratio\<rparr>))))"

text \<open>The inner \<open>try\<close> with its \<open>except\<close> clause.\<close>

definition column_stat_of ::
  "profile_cursor \<Rightarrow> string \<Rightarrow> int \<Rightarrow> string \<times> string \<times> string \<Rightarrow> column_stat" where
  "column_stat_of cursor table rc col_row =
     (case column_stat_try cursor table rc col_row of
        Inr st \<Rightarrow> st
      | Inl e \<Rightarrow>
          (case col_row of (cname, dtype, is_nullable) \<Rightarrow>
             \<lparr>column_name = cname, data_type = dtype, nullable = (is_nullable = ''YES''),
              null_count = 0, distinct_count = 0, null_ratio = 0\<rparr>))"

text \<open>The outer \<open>try\<close> with its \<open>except\<close> clause, for one table.\<close>

definition table_profile_of :: "profile_cursor \<Rightarrow> string \<Rightarrow> table_profile" where
  "table_profile_of cursor table =
     (case count_rows cursor table of
        Inl e \<Rightarrow> \<lparr>row_count = 0, columns = []\<rparr>
      | Inr count_result \<Rightarrow>
          (case column_rows cursor table of
             Inl e \<Rightarrow> \<lparr>row_count = 0, columns = []\<rparr>
           | Inr columns_result \<Rightarrow>
               \<lparr>row_count = first_or_zero count_result,
                columns = map (column_stat_of cursor table (first_or_zero count_result))
                              columns_result\<rparr>))"

text \<open>\<open>data_profile\<close>, the dict from table to profile.\<close>

fun data_profile :: "profile_cursor \<Rightarrow> string list \<Rightarrow> (string, table_profile) dict \<Rightarrow>
    (string, table_profile) dict" where
  "data_profile cursor [] profile = profile"
| "data_profile cursor (table # tables) profile =
     data_profile cursor tables (dict_set profile table (table_profile_of cursor table))"

lemma column_stat_try_no_division_error:
  "column_stat_try cursor table rc col_row \<noteq> Inl ZeroDivisionError"
  by (auto simp: column_stat_try_def py_truediv_def split: prod.splits sum.splits if_splits)

lemma column_stat_zero_rows:
  "rc = 0 \<Longrightarrow> null_ratio (column_stat_of cursor table rc col_row) = 0"
  by (auto simp: column_stat_of_def column_stat_try_def split: prod.splits sum.splits)

lemma table_profile_zero_rows:
  "row_count (table_profile_of cursor table) = 0 \<Longrightarrow>
   c \<in> set (columns (table_profile_of cursor table)) \<Longrightarrow> null_ratio c = 0"
  by (auto simp: table_profile_of_def column_stat_zero_rows split: sum.splits)

lemma data_profile_entries:
  "(t, p) \<in> set (data_profile cursor tables profile) \<Longrightarrow>
   (t, p) \<in> set profile \<or> p = table_profile_of cursor t"
proof (induction tables arbitrary: profile)
  case Nil
  then show ?case by simp
next
  case (Cons table tables)
  from Cons.IH [OF Cons.prems [simplified]] set_dict_set [of profile table "table_profile_of cursor table"]
  show ?case by auto
qed

text \<open>
  Claim C6. In the data profile of the extraction, a table whose row count is 0 has
  \<open>null_ratio = 0\<close> for every column, and no division by zero is performed: the
  quotient is taken only when the row count is positive, so the block that computes a
  column's statistics never raises \<open>ZeroDivisionError\<close>.
\<close>

theorem null_ratio_safety:
  "(\<forall>(t, p) \<in> set (data_profile cursor tables []).
      row_count p = 0 \<longrightarrow> (\<forall>c \<in> set (columns p). null_ratio c = 0)) \<and>
   (row_count (table_profile_of cursor table) = 0 \<longrightarrow>
      (\<forall>c \<in> set (columns (table_profile_of cursor table)). null_ratio c = 0)) \<and>
   column_stat_try cursor table rc col_row \<noteq> Inl ZeroDivisionError"
proof -
  have "\<forall>(t, p) \<in> set (data_profile cursor tables []).
      row_count p = 0 \<longrightarrow> (\<forall>c \<in> set (columns p). null_ratio c = 0)"
    using data_profile_entries [of _ _ cursor tables "[]"] table_profile_zero_rows [of cursor]
    by fastforce
  with table_profile_zero_rows [of cursor table] column_stat_try_no_division_error
  show ?thesis by blast
qed

text \<open>A source with the empty table \<open>t\<close>, which has the two columns \<open>id\<close> and \<open>note\<close>.\<close>

definition empty_table_cursor :: profile_cursor where
  "empty_table_cursor =
     \<lparr>count_rows = (\<lambda>t. Inr (Some 0)),
      column_rows = (\<lambda>t. Inr [(''id'', ''int'', ''NO''), (''note'', ''text'', ''YES'')]),
      count_nulls = (\<lambda>t c. Inr (Some 0)),
      count_distinct = (\<lambda>t c. Inr (Some 0))\<rparr>"

theorem null_ratio_safety_witness:
  "data_profile empty_table_cursor [''t''] [] = [(''t'', table_profile_of empty_table_cursor ''t'')] \<and>
   row_count (table_profile_of empty_table_cursor ''t'') = 0 \<and>
   length (columns (table_profile_of empty_table_cursor ''t'')) = 2 \<and>
   map null_ratio (columns (table_profile_of empty_table_cursor ''t'')) = [0, 0]"
proof -
  have d: "data_profile empty_table_cursor [''t''] [] = [(''t'', table_profile_of empty_table_cursor ''t'')]"
    by simp
  have r: "row_count (table_profile_of empty_table_cursor ''t'') = 0"
    by (simp add: table_profile_of_def empty_table_cursor_def first_or_zero_def)
  have l: "length (columns (table_profile_of empty_table_cursor ''t'')) = 2"
    by (simp add: table_profile_of_def empty_table_cursor_def first_or_zero_def)
  from null_ratio_safety [of empty_table_cursor "[''t'']" "''t''"] r
  have "\<forall>c \<in> set (columns (table_profile_of empty_table_cursor ''t'')). null_ratio c = 0" by blast
  then have "map null_ratio (columns (table_profile_of empty_table_cursor ''t'')) =
             replicate (length (columns (table_profile_of empty_table_cursor ''t''))) 0"
    by (simp add: map_replicate_const [symmetric] cong: map_cong)
  with d r l show ?thesis by (simp add: numeral_2_eq_2)
qed

section \<open>The percentage of the status records\<close>

text \<open>
  Each stage is modelled by the list of the values that one run assigns to the
  \<open>percent\<close> field of its status record, from the reset at the start of the task to
  its end. What can go wrong in the world (a missing session, a connection that fails, a
  query that raises) is an argument.
\<close>

subsection \<open>\<open>run_extraction_task\<close>\<close>

record extraction_env =
  source_selected :: bool
  connection_found :: bool
  extract_database_ddl :: "string option"
  save_bundle :: "string option"

definition extraction_phases :: "(string \<times> nat) list" where
  "extraction_phases =
     [(''Loading analysis results'', 10),
      (''Generating DDL scripts'', 30),
      (''Extracting constraints'', 50),
      (''Building dependency graph'', 70),
      (''Preparing type mappings'', 85),
      (''Finalizing extraction'', 100)]"

text \<open>
  The reset writes 0; the loop over \<open>phases[:-1]\<close> writes their percentages; then 60 is
  written before \<open>extract_database_ddl\<close>, and 100 after it. The \<open>except\<close> clause
  writes 100.
\<close>

definition run_extraction_task :: "extraction_env \<Rightarrow> nat list" where
  "run_extraction_task env =
     [0] @
     (if \<not> source_selected env then [100]
      else if \<not> connection_found env then [100]
      else map snd (butlast extraction_phases) @ [60] @
           (case extract_database_ddl env of
              Some e \<Rightarrow> [100]
            | None \<Rightarrow> [100] @ (case save_bundle env of Some e \<Rightarrow> [100] | None \<Rightarrow> [])))"

definition extraction_ok_env :: extraction_env where
  "extraction_ok_env =
     \<lparr>source_selected = True, connection_found = True, extract_database_ddl = None,
      save_bundle = None\<rparr>"

text \<open>
  Claim C3 says that the percentage of every stage never decreases within a run. The
  extraction stage breaks it: a run with a selected source whose connection is found
  writes 85 and then 60.
\<close>

theorem extraction_percent_decreases:
  "run_extraction_task extraction_ok_env = [0, 10, 30, 50, 70, 85, 60, 100] \<and>
   \<not> sorted (run_extraction_task extraction_ok_env)"
  by (simp add: run_extraction_task_def extraction_ok_env_def extraction_phases_def)

lemma extraction_always_decreases:
  "source_selected env \<Longrightarrow> connection_found env \<Longrightarrow> \<not> sorted (run_extraction_task env)"
  by (simp add: run_extraction_task_def extraction_phases_def split: option.splits)

subsection \<open>\<open>run_data_migration_task\<close>\<close>

record migration_env =
  session_selected :: bool
  connect_databases :: "string option"
  prepare_target :: "string option"
  copy_table :: "string \<Rightarrow> string + nat"

definition tables_to_migrate :: "string list" where
  "tables_to_migrate = [''customers'', ''employees'', ''products'', ''orders'', ''order_items'']"

text \<open>
  \<open>min(40 + int((i + 1) / len(tables_to_migrate) * 50), 90)\<close>. The quotient is a float
  in Python; for the five tables it is \<open>0.2\<close>, \<open>0.4\<close>, \<open>0.6\<close>, \<open>0.8\<close> and
  \<open>1.0\<close>, and the truncated products are 10, 20, 30, 40 and 50, the values of the
  integer division here.
\<close>

definition table_progress :: "nat \<Rightarrow> nat \<Rightarrow> nat" where
  "table_progress i n = min (40 + ((i + 1) * 50) div n) 90"

text \<open>
  The loop over the tables: the percentages written, and whether the loop came to its
  end (an exception in the copy of a table ends the run).
\<close>

fun copy_tables :: "migration_env \<Rightarrow> string list \<Rightarrow> nat \<Rightarrow> nat \<Rightarrow> nat list \<times> bool" where
  "copy_tables env [] i n = ([], True)"
| "copy_tables env (table # rest) i n =
     (case copy_table env table of
        Inl e \<Rightarrow> ([], False)
      | Inr table_row_count \<Rightarrow>
          (case copy_tables env rest (i + 1) n of
             (ps, finished) \<Rightarrow> (table_progress i n # ps, finished)))"

definition run_data_migration_task :: "migration_env \<Rightarrow> nat list" where
  "run_data_migration_task env =
     [0, 10] @
     (if \<not> session_selected env then []
      else [20] @
        (case connect_databases env of
           Some e \<Rightarrow> []
         | None \<Rightarrow> [30] @
             (case prepare_target env of
                Some e \<Rightarrow> []
              | None \<Rightarrow> [40] @
                  (case copy_tables env tables_to_migrate 0 (length tables_to_migrate) of
                     (ps, finished) \<Rightarrow> ps @ (if finished then [95, 100] else [])))))"

lemma table_progress_mono: "i \<le> j \<Longrightarrow> table_progress i n \<le> table_progress j n"
  unfolding table_progress_def
  by (intro min.mono add_left_mono div_le_mono mult_right_mono) simp_all

lemma copy_tables_percents:
  "copy_tables env tables i n = (ps, finished) \<Longrightarrow>
   sorted ps \<and> (\<forall>p \<in> set ps. table_progress i n \<le> p \<and> 40 \<le> p \<and> p \<le> 90)"
proof (induction tables arbitrary: i ps finished)
  case Nil
  then show ?case by simp
next
  case (Cons table rest)
  show ?case
  proof (cases "copy_table env table")
    case (Inl e)
    with Cons.prems show ?thesis by simp
  next
    case (Inr n')
    obtain qs f where r: "copy_tables env rest (i + 1) n = (qs, f)"
      by (cases "copy_tables env rest (i + 1) n")
    with Inr Cons.prems have ps: "ps = table_progress i n # qs" by simp
    from Cons.IH [OF r] have s: "sorted qs"
      and b: "\<forall>p \<in> set qs. table_progress (i + 1) n \<le> p \<and> 40 \<le> p \<and> p \<le> 90" by simp_all
    have m: "table_progress i n \<le> table_progress (i + 1) n" by (rule table_progress_mono) simp
    have "40 \<le> table_progress i n" "table_progress i n \<le> 90"
      by (simp_all add: table_progress_def)
    with ps s b m show ?thesis by (auto intro: order_trans)
  qed
qed

lemma data_migration_percent_monotone:
  "sorted (run_data_migration_task env) \<and> (\<forall>p \<in> set (run_data_migration_task env). p \<le> 100)"
proof -
  obtain ps f where c: "copy_tables env tables_to_migrate 0 (length tables_to_migrate) = (ps, f)"
    by (cases "copy_tables env tables_to_migrate 0 (length tables_to_migrate)")
  from copy_tables_percents [OF c] have "sorted ps" "\<forall>p \<in> set ps. 40 \<le> p \<and> p \<le> 90" by simp_all
  then have "sorted ([0, 10, 20, 30, 40] @ ps @ [95, 100])"
    "\<forall>p \<in> set ([0, 10, 20, 30, 40] @ ps @ [95, 100]). p \<le> 100"
    "sorted ([0, 10, 20, 30, 40] @ ps)" "\<forall>p \<in> set ([0, 10, 20, 30, 40] @ ps). p \<le> 100"
    by (auto simp: sorted_append)
  with c show ?thesis
    by (auto simp: run_data_migration_task_def split: option.splits)
qed

subsection \<open>\<open>run_comprehensive_validation\<close>\<close>

lemma run_phases_percents:
  "\<exists>k. snd (run_phases s t phases results percents) = percents @ take k (map fst phases @ [100])"
proof (induction phases arbitrary: results percents)
  case Nil
  show ?case by (rule exI [of _ 1]) simp
next
  case (Cons ph phases)
  obtain p check where ph: "ph = (p, check)" by (cases ph)
  show ?case
  proof (cases "check s t")
    case (Inl e)
    with ph show ?thesis by (intro exI [of _ 1]) simp
  next
    case (Inr rs)
    from Cons.IH [of "results @ rs" "percents @ [p]"] obtain k where
      "snd (run_phases s t phases (results @ rs) (percents @ [p])) =
       (percents @ [p]) @ take k (map fst phases @ [100])" by blast
    with ph Inr show ?thesis by (intro exI [of _ "Suc k"]) simp
  qed
qed

lemma validation_percent_monotone:
  "sorted (0 # snd (run_comprehensive_validation env)) \<and>
   (\<forall>p \<in> set (snd (run_comprehensive_validation env)). p \<le> 100)"
proof -
  let ?all = "[5, 15, 30, 40, 50, 70, 85, 95, 100 :: nat]"
  have "\<exists>k. snd (run_comprehensive_validation env) = take k ?all"
  proof (cases "\<exists>si ti sc tc. session_source env = Some si \<and> session_target env = Some ti \<and>
      get_connection_by_id env si = Some sc \<and> get_connection_by_id env ti = Some tc")
    case False
    then have "snd (run_comprehensive_validation env) = take 0 ?all"
      by (auto simp: run_comprehensive_validation_def split: option.splits)
    then show ?thesis by blast
  next
    case True
    then obtain si ti sc tc where h: "session_source env = Some si" "session_target env = Some ti"
      "get_connection_by_id env si = Some sc" "get_connection_by_id env ti = Some tc" by blast
    let ?cr = "validate_connections (connect_to_database env) sc tc"
    show ?thesis
    proof (cases "list_ex (\<lambda>result. status result = Fail) ?cr")
      case True
      with h have "snd (run_comprehensive_validation env) = take 1 ?all"
        by (simp add: run_comprehensive_validation_def)
      then show ?thesis by blast
    next
      case False
      from run_phases_percents [of sc tc "later_phases env" ?cr "[5]"] obtain k where
        "snd (run_phases sc tc (later_phases env) ?cr [5]) =
         [5] @ take k (map fst (later_phases env) @ [100])" by blast
      moreover have "map fst (later_phases env) @ [100] = [15, 30, 40, 50, 70, 85, 95, 100]"
        by (simp add: later_phases_def)
      moreover from False h have "snd (run_comprehensive_validation env) =
          snd (run_phases sc tc (later_phases env) ?cr [5])"
        by (simp add: run_comprehensive_validation_def Let_def)
      ultimately have "snd (run_comprehensive_validation env) = take (Suc k) ?all" by simp
      then show ?thesis by blast
    qed
  qed
  then obtain k where k: "snd (run_comprehensive_validation env) = take k ?all" by blast
  have "sorted (0 # ?all)" by simp
  then have "sorted (take (Suc k) (0 # ?all))" by (rule sorted_wrt_take)
  moreover have "\<forall>p \<in> set (take k ?all). p \<le> 100"
    using set_take_subset [of k ?all] by auto
  ultimately show ?thesis using k by simp
qed


subsection \<open>\<open>run_structure_migration_task\<close>\<close>

text \<open>
  The points at which the task can raise, each \<open>None\<close> when it does not: loading the
  extraction bundle, the session and the connection records, the translation, the
  connection to the target, and the application of the DDL.
\<close>

record structure_env =
  load_bundle :: "string option"
  load_session :: "string option"
  translate :: "string option"
  connect_target :: "string option"
  apply_ddl :: "string option"

definition run_structure_migration_task :: "structure_env \<Rightarrow> nat list" where
  "run_structure_migration_task env =
     [0, 10] @
     (case load_bundle env of
        Some e \<Rightarrow> []
      | None \<Rightarrow> [20] @
          (case load_session env of
             Some e \<Rightarrow> []
           | None \<Rightarrow> [40] @
               (case translate env of
                  Some e \<Rightarrow> []
                | None \<Rightarrow> [60, 70] @
                    (case connect_target env of
                       Some e \<Rightarrow> []
                     | None \<Rightarrow> [75, 80] @
                         (case apply_ddl env of
                            Some e \<Rightarrow> []
                          | None \<Rightarrow> [100])))))"

lemma structure_migration_percent_monotone:
  "sorted (run_structure_migration_task env) \<and>
   (\<forall>p \<in> set (run_structure_migration_task env). p \<le> 100)"
  by (simp add: run_structure_migration_task_def split: option.splits)

end
